theory Spec2Isabelle
  imports Complex_Main "HOL-Library.Word"
begin

unbundle bit_operations_syntax

section \<open>Package curve: Hilbert curves of dimension 2, 3 and 4\<close>

text \<open>
  Go's \<open>int\<close> is modelled as \<open>int\<close>: \<open>>>\<close> is \<open>drop_bit\<close> (arithmetic shift),
  \<open><<\<close> is \<open>push_bit\<close>, \<open>&\<close>, \<open>|\<close> and \<open>^\<close> are \<open>AND\<close>, \<open>OR\<close> and \<open>XOR\<close>.
  The model agrees with 64-bit integers as long as no value leaves the 64-bit range, which
  for a curve of dimension \<open>N\<close> and order \<open>k\<close> is the documented condition that
  \<open>N * k\<close> stays below the word size.  A slice is an \<open>int list\<close>; an index out of range
  panics, which is the result \<open>None\<close>.  The field \<open>Order\<close> is a natural number (for a
  negative order both loops of the source run zero times, as for order 0).
\<close>

subsection \<open>The operators\<close>

datatype op = invert nat nat | swap nat nat | flip nat nat

text \<open>\<open>1<<n - 1\<close>\<close>

definition lowbits :: "nat \<Rightarrow> int" where
  "lowbits n = push_bit n 1 - 1"

text \<open>
  The three \<open>do\<close> methods.  A tuple assignment reads both right-hand sides from the old
  slice, then stores into index \<open>i\<close> and then into index \<open>j\<close>.
\<close>

fun do_op :: "op \<Rightarrow> nat \<Rightarrow> int list \<Rightarrow> int list option" where
  "do_op (invert i j) n v =
     (if i < length v \<and> j < length v
      then Some (v[i := (v ! i) XOR lowbits n, j := (v ! j) XOR lowbits n])
      else None)"
| "do_op (swap i j) n v =
     (if i < length v \<and> j < length v
      then Some (v[i := v ! j, j := v ! i])
      else None)"
| "do_op (flip i j) n v =
     (if i < length v \<and> j < length v
      then Some (v[i := (v ! j) XOR lowbits n, j := (v ! i) XOR lowbits n])
      else None)"

definition do2 :: "bool \<Rightarrow> nat \<Rightarrow> int list \<Rightarrow> op \<Rightarrow> op \<Rightarrow> int list option" where
  "do2 reverse n v a b =
     (if reverse then Option.bind (do_op b n v) (do_op a n)
      else Option.bind (do_op a n v) (do_op b n))"

subsection \<open>Orientation steps\<close>

definition rot2 :: "nat \<Rightarrow> int list \<Rightarrow> int \<Rightarrow> int list option" where
  "rot2 n v d =
     (if d = 0 then do_op (swap 0 1) n v
      else if d = 3 then do_op (flip 0 1) n v
      else Some v)"

definition rot3 :: "bool \<Rightarrow> nat \<Rightarrow> int list \<Rightarrow> int \<Rightarrow> int list option" where
  "rot3 reverse n v d =
     (if d = 0 then do2 reverse n v (swap 1 2) (swap 0 2)
      else if d = 1 \<or> d = 2 then do2 reverse n v (swap 0 2) (swap 1 2)
      else if d = 3 \<or> d = 4 then do_op (invert 0 1) n v
      else if d = 5 \<or> d = 6 then do2 reverse n v (flip 0 2) (flip 1 2)
      else if d = 7 then do2 reverse n v (flip 1 2) (flip 0 2)
      else Some v)"

definition rot4 :: "bool \<Rightarrow> nat \<Rightarrow> int list \<Rightarrow> int \<Rightarrow> int list option" where
  "rot4 reverse n v d =
     (if d = 0 then do2 reverse n v (swap 1 3) (swap 0 3)
      else if d = 1 \<or> d = 2 then do2 reverse n v (swap 0 3) (swap 1 3)
      else if d = 3 \<or> d = 4 then do2 reverse n v (flip 0 1) (swap 2 3)
      else if d = 5 \<or> d = 6 then do2 reverse n v (flip 1 2) (swap 2 3)
      else if d = 7 \<or> d = 8 then do_op (invert 0 2) n v
      else if d = 9 \<or> d = 10 then do2 reverse n v (flip 1 2) (flip 2 3)
      else if d = 11 \<or> d = 12 then do2 reverse n v (flip 0 1) (flip 2 3)
      else if d = 13 \<or> d = 14 then do2 reverse n v (flip 0 3) (flip 1 3)
      else if d = 15 then do2 reverse n v (flip 1 3) (flip 0 3)
      else Some v)"

subsection \<open>Loops\<close>

text \<open>
  A \<open>for\<close> loop over the levels threads its state through the body; a panic in the body
  ends the loop with \<open>None\<close>.
\<close>

definition for_levels :: "nat list \<Rightarrow> (nat \<Rightarrow> 's \<Rightarrow> 's option) \<Rightarrow> 's \<Rightarrow> 's option" where
  "for_levels ns body s = fold (\<lambda>n r. Option.bind r (body n)) ns (Some s)"

text \<open>\<open>for n := Order - 1; n >= 0; n--\<close> and \<open>for n := 0; n < Order; n++\<close>\<close>

definition down_from :: "nat \<Rightarrow> nat list" where
  "down_from k = rev [0..<k]"

definition up_to :: "nat \<Rightarrow> nat list" where
  "up_to k = [0..<k]"

text \<open>Reading \<open>v[i]\<close>.\<close>

definition elem :: "int list \<Rightarrow> nat \<Rightarrow> int option" where
  "elem v i = (if i < length v then Some (v ! i) else None)"

subsection \<open>Hilbert2D\<close>

text \<open>The state of the loop of \<open>Pos\<close> is \<open>(d, v)\<close>; \<open>Pos\<close> returns \<open>d\<close> and leaves \<open>v\<close> changed.\<close>

definition Pos2D_body :: "nat \<Rightarrow> nat \<Rightarrow> int \<times> int list \<Rightarrow> (int \<times> int list) option" where
  "Pos2D_body Order n s =
     (case s of (d, v) \<Rightarrow>
        Option.bind (elem v 0) (\<lambda>v0.
        Option.bind (elem v 1) (\<lambda>v1.
          let rx = drop_bit n v0 AND 1;
              ry = drop_bit n v1 AND 1;
              rd = push_bit 1 ry OR (ry XOR rx)
          in Option.bind (rot2 Order v rd) (\<lambda>v'. Some (d + push_bit (2 * n) rd, v')))))"

definition Pos2D :: "nat \<Rightarrow> int list \<Rightarrow> (int \<times> int list) option" where
  "Pos2D Order v = for_levels (down_from Order) (Pos2D_body Order) (0, v)"

text \<open>The state of the loop of \<open>Coord2D\<close> is \<open>(v, pos)\<close>.\<close>

definition Coord2D_body :: "nat \<Rightarrow> int list \<times> int \<Rightarrow> (int list \<times> int) option" where
  "Coord2D_body n s =
     (case s of (v, pos) \<Rightarrow>
        let e = pos AND 3
        in Option.bind (rot2 n v e) (\<lambda>v'.
             let ry = drop_bit 1 e;
                 rx = (drop_bit 0 e XOR drop_bit 1 e) AND 1
             in Some (v'[0 := v' ! 0 + push_bit n rx, 1 := v' ! 1 + push_bit n ry],
                      drop_bit 2 pos)))"

definition Coord2D :: "nat \<Rightarrow> int \<Rightarrow> int list option" where
  "Coord2D Order pos = map_option fst (for_levels (up_to Order) Coord2D_body ([0, 0], pos))"

subsection \<open>Hilbert3D\<close>

definition Pos3D_body :: "nat \<Rightarrow> nat \<Rightarrow> int \<times> int list \<Rightarrow> (int \<times> int list) option" where
  "Pos3D_body Order n s =
     (case s of (d, v) \<Rightarrow>
        Option.bind (elem v 0) (\<lambda>v0.
        Option.bind (elem v 1) (\<lambda>v1.
        Option.bind (elem v 2) (\<lambda>v2.
          let rx = drop_bit n v0 AND 1;
              ry = drop_bit n v1 AND 1;
              rz = drop_bit n v2 AND 1;
              rd = push_bit 2 rz OR push_bit 1 (rz XOR ry) OR (rz XOR ry XOR rx)
          in Option.bind (rot3 False Order v rd) (\<lambda>v'. Some (d + push_bit (3 * n) rd, v'))))))"

definition Pos3D :: "nat \<Rightarrow> int list \<Rightarrow> (int \<times> int list) option" where
  "Pos3D Order v = for_levels (down_from Order) (Pos3D_body Order) (0, v)"

definition Coord3D_body :: "nat \<Rightarrow> int list \<times> int \<Rightarrow> (int list \<times> int) option" where
  "Coord3D_body n s =
     (case s of (v, pos) \<Rightarrow>
        let e = pos AND 7
        in Option.bind (rot3 True n v e) (\<lambda>v'.
             let rz = drop_bit 2 e;
                 ry = (drop_bit 1 e XOR drop_bit 2 e) AND 1;
                 rx = (drop_bit 0 e XOR drop_bit 1 e) AND 1
             in Some (v'[0 := v' ! 0 + push_bit n rx,
                         1 := v' ! 1 + push_bit n ry,
                         2 := v' ! 2 + push_bit n rz],
                      drop_bit 3 pos)))"

definition Coord3D :: "nat \<Rightarrow> int \<Rightarrow> int list option" where
  "Coord3D Order pos =
     map_option fst (for_levels (up_to Order) Coord3D_body ([0, 0, 0], pos))"

subsection \<open>Hilbert4D\<close>

text \<open>The inner loop of \<open>Pos\<close>, over the axes \<open>N - 1\<close> down to 0, with state \<open>e\<close>.\<close>

definition Pos4D_code_body :: "int list \<Rightarrow> nat \<Rightarrow> nat \<Rightarrow> int \<Rightarrow> int option" where
  "Pos4D_code_body v n i e =
     Option.bind (elem v i) (\<lambda>vi.
       let b = drop_bit n vi AND 1
       in Some (push_bit 1 e OR ((e XOR b) AND 1)))"

definition Pos4D_body :: "nat \<Rightarrow> nat \<Rightarrow> int \<times> int list \<Rightarrow> (int \<times> int list) option" where
  "Pos4D_body Order n s =
     (case s of (d, v) \<Rightarrow>
        Option.bind (for_levels (down_from 4) (Pos4D_code_body v n) 0) (\<lambda>e.
        Option.bind (rot4 False Order v e) (\<lambda>v'. Some (d + push_bit (4 * n) e, v'))))"

definition Pos4D :: "nat \<Rightarrow> int list \<Rightarrow> (int \<times> int list) option" where
  "Pos4D Order v = for_levels (down_from Order) (Pos4D_body Order) (0, v)"

text \<open>The inner loop of \<open>Coord4D\<close>, over the axes 0 up to \<open>N - 1\<close>, with state \<open>(v, e)\<close>.\<close>

definition Coord4D_bits_body :: "nat \<Rightarrow> nat \<Rightarrow> int list \<times> int \<Rightarrow> (int list \<times> int) option" where
  "Coord4D_bits_body n i s =
     (case s of (v, e) \<Rightarrow>
        Option.bind (elem v i) (\<lambda>vi.
          Some (v[i := vi + push_bit n ((e XOR drop_bit 1 e) AND 1)], drop_bit 1 e)))"

definition Coord4D_body :: "nat \<Rightarrow> int list \<times> int \<Rightarrow> (int list \<times> int) option" where
  "Coord4D_body n s =
     (case s of (v, pos) \<Rightarrow>
        let e = pos AND (push_bit 4 1 - 1)
        in Option.bind (rot4 True n v e) (\<lambda>v'.
           Option.bind (for_levels (up_to 4) (Coord4D_bits_body n) (v', e)) (\<lambda>r.
             Some (fst r, drop_bit 4 pos))))"

definition Coord4D :: "nat \<Rightarrow> int \<Rightarrow> int list option" where
  "Coord4D Order pos =
     map_option fst (for_levels (up_to Order) Coord4D_body ([0, 0, 0, 0], pos))"

section \<open>Package rtree\<close>

text \<open>
  A \<open>float64\<close> is modelled as a rational number: the comparisons, \<open>math.Min\<close> and
  \<open>math.Max\<close> are exact on floats, while sums, products and quotients round.  The
  statements below that run the program on concrete data use small integers and halves, on
  which every operation is exact in \<open>float64\<close> too.  A panic is an \<open>error\<close> on the left
  of a sum.
\<close>

datatype error = NilPointer | IndexOutOfRange | NoCurve nat | PivotNotSet

definition after :: "error + 'a \<Rightarrow> ('a \<Rightarrow> error + 'b) \<Rightarrow> error + 'b" where
  "after r f = (case r of Inl e \<Rightarrow> Inl e | Inr x \<Rightarrow> f x)"

text \<open>
  The only \<open>Point\<close> of the package is \<open>Vector\<close>; a \<open>Point\<close> field is an interface value,
  which may be nil.
\<close>

type_synonym Vector = "rat list"

type_synonym Point = "Vector option"

definition Dims :: "Point \<Rightarrow> error + nat" where
  "Dims p = (case p of None \<Rightarrow> Inl NilPointer | Some v \<Rightarrow> Inr (length v))"

definition Dim :: "Point \<Rightarrow> nat \<Rightarrow> error + rat" where
  "Dim p i =
     (case p of None \<Rightarrow> Inl NilPointer
      | Some v \<Rightarrow> if i < length v then Inr (v ! i) else Inl IndexOutOfRange)"

datatype Bounding = Bounding (MinP: Point) (MaxP: Point)

text \<open>A loop over the axes \<open>0 \<le> i < n\<close> that builds one value per axis.\<close>

fun for_axes :: "nat list \<Rightarrow> (nat \<Rightarrow> error + 'a) \<Rightarrow> error + 'a list" where
  "for_axes [] f = Inr []"
| "for_axes (i # is) f = after (f i) (\<lambda>x. after (for_axes is f) (\<lambda>xs. Inr (x # xs)))"

fun Overlaps_from :: "Bounding \<Rightarrow> Bounding \<Rightarrow> nat list \<Rightarrow> error + bool" where
  "Overlaps_from a b [] = Inr True"
| "Overlaps_from a b (i # is) =
     after (Dim (MinP a) i) (\<lambda>amin.
     after (Dim (MaxP b) i) (\<lambda>bmax.
       if amin > bmax then Inr False
       else after (Dim (MaxP a) i) (\<lambda>amax.
            after (Dim (MinP b) i) (\<lambda>bmin.
              if amax < bmin then Inr False else Overlaps_from a b is))))"

definition Overlaps :: "Bounding \<Rightarrow> Bounding \<Rightarrow> error + bool" where
  "Overlaps a b = after (Dims (MinP a)) (\<lambda>n. Overlaps_from a b [0..<n])"

definition Extent :: "Bounding \<Rightarrow> Bounding \<Rightarrow> error + Bounding" where
  "Extent a b =
     after (Dims (MinP a)) (\<lambda>n.
     after (for_axes [0..<n] (\<lambda>i.
            after (Dim (MinP a) i) (\<lambda>amin.
            after (Dim (MinP b) i) (\<lambda>bmin.
            after (Dim (MaxP a) i) (\<lambda>amax.
            after (Dim (MaxP b) i) (\<lambda>bmax.
              Inr (min amin bmin, max amax bmax))))))) (\<lambda>mm.
       Inr (Bounding (Some (map fst mm)) (Some (map snd mm)))))"

fun Area_from :: "Bounding \<Rightarrow> nat list \<Rightarrow> rat \<Rightarrow> error + rat" where
  "Area_from a [] area = Inr area"
| "Area_from a (i # is) area =
     after (Dim (MaxP a) i) (\<lambda>amax.
     after (Dim (MinP a) i) (\<lambda>amin.
       Area_from a is (area * (amax - amin))))"

definition Area :: "Bounding \<Rightarrow> error + rat" where
  "Area a = after (Dims (MinP a)) (\<lambda>n. Area_from a [0..<n] 1)"

text \<open>
  A \<open>Bounded\<close> value of a client: what \<open>Bounds()\<close> returns, and a label that tells the
  values apart.
\<close>

datatype Bounded = Bounded (label: nat) (Bounds: Bounding)

subsection \<open>calculateBounds and quantize\<close>

text \<open>
  A \<open>BoundedSet\<close> is the list of its elements, with the function that gives the bounds
  of an element; \<open>Swap\<close> can only reorder the list.
\<close>

fun extend_all :: "Bounding \<Rightarrow> Bounding list \<Rightarrow> error + Bounding" where
  "extend_all b [] = Inr b"
| "extend_all b (c # cs) = after (Extent b c) (\<lambda>b'. extend_all b' cs)"

definition calculateBounds :: "Bounding list \<Rightarrow> error + Bounding" where
  "calculateBounds v =
     (case v of [] \<Rightarrow> Inr (Bounding None None) | b # bs \<Rightarrow> extend_all b bs)"

text \<open>
  A division of floats does not panic.  With a divisor zero the quotient is not a number
  of the model: it is a NaN when the dividend is zero too, and an infinity of the sign of
  the dividend otherwise (the difference of two equal floats is the positive zero).
\<close>

datatype nonfinite = NaN | PosInf | NegInf

definition float_div :: "rat \<Rightarrow> rat \<Rightarrow> nonfinite + rat" where
  "float_div x y =
     (if y = 0 then Inl (if x = 0 then NaN else if 0 < x then PosInf else NegInf)
      else Inr (x / y))"

text \<open>
  The conversion \<open>int(f)\<close> does not panic either.  For a finite float it drops the
  fraction.  For a NaN or an infinity Go leaves the result to the implementation: the
  model takes it as a parameter, the function \<open>conv\<close>, which every definition that
  reaches \<open>quantize\<close> carries.
\<close>

type_synonym conversion = "nonfinite \<Rightarrow> int"

definition to_int :: "conversion \<Rightarrow> nonfinite + rat \<Rightarrow> int" where
  "to_int conv f =
     (case f of Inl c \<Rightarrow> conv c | Inr x \<Rightarrow> if 0 \<le> x then \<lfloor>x\<rfloor> else \<lceil>x\<rceil>)"

definition quantize :: "conversion \<Rightarrow> Bounding \<Rightarrow> int \<Rightarrow> Vector \<Rightarrow> error + int list" where
  "quantize conv b w p =
     for_axes [0..<length p] (\<lambda>i.
       after (Dim (Some p) i) (\<lambda>pi.
       after (Dim (MinP b) i) (\<lambda>bmin.
       after (Dim (MaxP b) i) (\<lambda>bmax.
       after (Dim (MinP b) i) (\<lambda>bmin'.
         let q = to_int conv (float_div (of_int w * (pi - bmin)) (bmax - bmin'))
         in Inr (if q = w then q - 1 else q))))))"

subsection \<open>HilbertCurvePivot\<close>

text \<open>
  Modelled from the spec: the method \<open>Curve\<close> of the three curves, which the interface
  \<open>SpaceFilling\<close> declares and the pivot calls, is not in the sources.  The spec's
  \<open>curve(v)\<close> is the encoding, which the sources have as \<open>Pos\<close>.
\<close>

definition Curve :: "nat \<Rightarrow> nat \<Rightarrow> int list \<Rightarrow> error + int" where
  "Curve n Order v =
     (case (if n = 2 then Pos2D Order v else if n = 3 then Pos3D Order v else Pos4D Order v) of
        None \<Rightarrow> Inl IndexOutOfRange
      | Some (d, v') \<Rightarrow> Inr d)"

definition center_of :: "Bounding \<Rightarrow> error + Vector" where
  "center_of bn =
     after (Dims (MinP bn)) (\<lambda>m.
       for_axes [0..<m] (\<lambda>i.
         after (Dim (MinP bn) i) (\<lambda>lo.
         after (Dim (MaxP bn) i) (\<lambda>hi. Inr ((lo + hi) / 2)))))"

text \<open>
  The body of the closure up to the sort: the positions \<open>sorter.points\<close>.  The argument
  \<open>order\<close> is not used; the constant \<open>k\<close> is.
\<close>

definition hilbert_points :: "conversion \<Rightarrow> int \<Rightarrow> Bounding list \<Rightarrow> error + int list" where
  "hilbert_points conv order bs =
     (let k = 5 :: nat in
      after (Dims (MinP (hd bs))) (\<lambda>n.
        if n = 2 \<or> n = 3 \<or> n = 4 then
          after (calculateBounds bs) (\<lambda>bounds.
            for_axes [0..<length bs] (\<lambda>i.
              after (center_of (bs ! i)) (\<lambda>center.
              after (quantize conv bounds (push_bit k 1) center) (\<lambda>q. Curve n k q))))
        else Inl (NoCurve n)))"

text \<open>
  \<open>sort.Sort\<close> is Go's library: it puts the set in ascending order of the positions, and
  it is an insertion sort on a set of at most 12 elements, as \<open>sort_key\<close> is.  Where
  the positions are distinct the order is the same for every sorting algorithm.
\<close>

definition HilbertCurvePivot ::
  "conversion \<Rightarrow> int \<Rightarrow> ('a \<Rightarrow> Bounding) \<Rightarrow> 'a list \<Rightarrow> error + 'a list \<times> int" where
  "HilbertCurvePivot conv order bounds_of elems =
     (if int (length elems) < 2 then Inr (elems, 0)
      else after (hilbert_points conv order (map bounds_of elems)) (\<lambda>points.
             Inr (map snd (sort_key fst (zip points elems)), int (length elems) div 2)))"

subsection \<open>Options\<close>

text \<open>
  The pivot functions of the package are the closures \<open>HilbertCurvePivot(order)\<close>; such a
  closure is given by its argument.
\<close>

datatype pivot = HilbertCurvePivot_closure int

fun call_pivot ::
  "conversion \<Rightarrow> pivot \<Rightarrow> ('a \<Rightarrow> Bounding) \<Rightarrow> 'a list \<Rightarrow> error + 'a list \<times> int" where
  "call_pivot conv (HilbertCurvePivot_closure order) bounds_of elems =
     HilbertCurvePivot conv order bounds_of elems"

record Options =
  FillLevel :: int
  Pivot :: "pivot option"

definition DefaultOptions :: Options where
  "DefaultOptions = \<lparr>FillLevel = 2, Pivot = Some (HilbertCurvePivot_closure 5)\<rparr>"

text \<open>Calling \<open>o.Pivot\<close>; a nil function value panics.\<close>

definition run_pivot ::
  "conversion \<Rightarrow> Options \<Rightarrow> ('a \<Rightarrow> Bounding) \<Rightarrow> 'a list \<Rightarrow> error + 'a list \<times> int" where
  "run_pivot conv opts bounds_of elems =
     (case Pivot opts of
        None \<Rightarrow> Inl NilPointer
      | Some p \<Rightarrow> call_pivot conv p bounds_of elems)"

text \<open>The slices \<open>xs[i:]\<close> and \<open>xs[:i]\<close>.\<close>

definition split_at :: "'a list \<Rightarrow> int \<Rightarrow> error + 'a list \<times> 'a list" where
  "split_at xs i =
     (if 0 \<le> i \<and> i \<le> int (length xs) then Inr (take (nat i) xs, drop (nat i) xs)
      else Inl IndexOutOfRange)"

subsection \<open>Nodes\<close>

text \<open>
  A node is owned by its parent alone, so a method that changes a node in place is a
  function that returns the changed node.
\<close>

datatype Node = Leaf Bounding "Bounded list" | Branch Bounding "Node list"

fun Node_Bounds :: "Node \<Rightarrow> Bounding" where
  "Node_Bounds (Leaf b vs) = b"
| "Node_Bounds (Branch b cs) = b"

fun len :: "Node \<Rightarrow> nat" where
  "len (Leaf b vs) = length vs"
| "len (Branch b cs) = sum_list (map len cs)"

text \<open>\<open>rebound(nil)\<close> and \<open>rebound(b)\<close> for a bounded \<open>b\<close>.\<close>

definition rebound_nil :: "Node \<Rightarrow> error + Node" where
  "rebound_nil n =
     (case n of
        Leaf b vs \<Rightarrow> after (calculateBounds (map Bounds vs)) (\<lambda>b'. Inr (Leaf b' vs))
      | Branch b cs \<Rightarrow> after (calculateBounds (map Node_Bounds cs)) (\<lambda>b'. Inr (Branch b' cs)))"

definition rebound_with :: "Node \<Rightarrow> Bounding \<Rightarrow> error + Node" where
  "rebound_with n x =
     (case n of
        Leaf b vs \<Rightarrow> after (Extent b x) (\<lambda>b'. Inr (Leaf b' vs))
      | Branch b cs \<Rightarrow> after (Extent b x) (\<lambda>b'. Inr (Branch b' cs)))"

subsection \<open>Search\<close>

record OverlapKeeper =
  query :: Bounding
  Items :: "Bounded list"

definition NewOverlap :: "Bounding \<Rightarrow> OverlapKeeper" where
  "NewOverlap b = \<lparr>query = b, Items = []\<rparr>"

definition Include :: "OverlapKeeper \<Rightarrow> Bounding \<Rightarrow> error + bool" where
  "Include k b = Overlaps (query k) b"

definition Keep :: "OverlapKeeper \<Rightarrow> Bounded \<Rightarrow> error + OverlapKeeper" where
  "Keep k b =
     after (Include k (Bounds b)) (\<lambda>inc.
       Inr (if inc then k\<lparr>Items := Items k @ [b]\<rparr> else k))"

fun keep_all :: "Bounded list \<Rightarrow> OverlapKeeper \<Rightarrow> error + OverlapKeeper" where
  "keep_all [] k = Inr k"
| "keep_all (c # cs) k = after (Keep k c) (keep_all cs)"

fun search :: "Node \<Rightarrow> OverlapKeeper \<Rightarrow> error + OverlapKeeper"
  and search_all :: "Node list \<Rightarrow> OverlapKeeper \<Rightarrow> error + OverlapKeeper" where
  "search (Leaf b vs) k =
     after (Include k b) (\<lambda>inc. if \<not> inc then Inr k else keep_all vs k)"
| "search (Branch b cs) k =
     after (Include k b) (\<lambda>inc. if \<not> inc then Inr k else search_all cs k)"
| "search_all [] k = Inr k"
| "search_all (c # cs) k = after (search c k) (search_all cs)"

subsection \<open>Insert\<close>

text \<open>
  The loop of \<open>pickForInsert\<close>: the index of the first child of cost 0, or else the
  costs of all children.
\<close>

fun costs :: "Bounding \<Rightarrow> Bounding list \<Rightarrow> nat \<Rightarrow> error + (nat + rat list)" where
  "costs bbounds [] i = Inr (Inr [])"
| "costs bbounds (cbounds # cs) i =
     after (Extent cbounds bbounds) (\<lambda>ext.
     after (Area ext) (\<lambda>a1.
     after (Area cbounds) (\<lambda>a0.
       let cost = a1 - a0 in
       if cost = 0 then Inr (Inl i)
       else after (costs bbounds cs (Suc i)) (\<lambda>r.
              Inr (case r of Inl j \<Rightarrow> Inl j | Inr rest \<Rightarrow> Inr (cost # rest))))))"

text \<open>
  After \<open>sort.Slice\<close> by cost the first candidate has the least cost; among equal costs
  the model takes the first child, as an insertion sort does.  With no child at all,
  \<open>candidates[0]\<close> is out of range.
\<close>

fun first_least :: "rat list \<Rightarrow> nat" where
  "first_least [] = 0"
| "first_least [c] = 0"
| "first_least (c # cs) =
     (let j = first_least cs in if cs ! j < c then Suc j else 0)"

definition pickForInsert :: "Node list \<Rightarrow> Bounded \<Rightarrow> error + nat" where
  "pickForInsert children b =
     after (costs (Bounds b) (map Node_Bounds children) 0) (\<lambda>r.
       case r of Inl i \<Rightarrow> Inr i
       | Inr cs \<Rightarrow> if cs = [] then Inl IndexOutOfRange else Inr (first_least cs))"

text \<open>
  \<open>insert\<close> returns the node as the call leaves it, and the split sibling or nil.
\<close>

function Node_insert ::
  "conversion \<Rightarrow> Options \<Rightarrow> Bounded \<Rightarrow> Node \<Rightarrow> error + Node \<times> Node option" where
  "Node_insert conv opts b (Leaf bb vs) =
     (let values = vs @ [b] in
      if int (length values) \<le> FillLevel opts * 2
      then after (rebound_with (Leaf bb values) (Bounds b)) (\<lambda>l. Inr (l, None))
      else after (run_pivot conv opts Bounds values) (\<lambda>(sorted, i).
           after (split_at sorted i) (\<lambda>(keep, move).
           after (rebound_nil (Leaf bb keep)) (\<lambda>l.
           after (rebound_nil (Leaf (Bounding None None) move)) (\<lambda>s.
             Inr (l, Some s))))))"
| "Node_insert conv opts b (Branch bb cs) =
     after (pickForInsert cs b) (\<lambda>p.
       if \<not> p < length cs then Inl IndexOutOfRange
       else after (Node_insert conv opts b (cs ! p)) (\<lambda>(picked, split).
         case split of
           None \<Rightarrow> after (rebound_with (Branch bb (cs[p := picked])) (Node_Bounds picked))
                     (\<lambda>r. Inr (r, None))
         | Some sp \<Rightarrow>
             let children = cs[p := picked] @ [sp] in
             if int (length children) \<le> FillLevel opts * 2
             then Inr (Branch bb children, None)
             else after (run_pivot conv opts Node_Bounds children) (\<lambda>(sorted, i).
                  after (split_at sorted i) (\<lambda>(keep, move).
                  after (rebound_nil (Branch bb keep)) (\<lambda>r.
                  after (rebound_nil (Branch (Bounding None None) move)) (\<lambda>s.
                    Inr (r, Some s)))))))"
  by pat_completeness auto
termination
proof (relation "measure (\<lambda>(conv, opts, b, n). size n)")
  show "wf (measure (\<lambda>(conv, opts, b, n). size n))"
    by simp
next
  fix conv :: conversion and opts :: Options and b :: Bounded and bb :: Bounding
    and cs :: "Node list" and p :: nat
  assume "\<not> \<not> p < length cs"
  then have "cs ! p \<in> set cs"
    by simp
  then have "size (cs ! p) \<le> size_list size cs"
    by (simp add: size_list_estimation')
  then show "((conv, opts, b, cs ! p), (conv, opts, b, Branch bb cs))
      \<in> measure (\<lambda>(conv, opts, b, n). size n)"
    by simp
qed

subsection \<open>Tree\<close>

record Tree = Options +
  Root :: "Node option"

definition new_Tree :: Tree where
  "new_Tree = \<lparr>FillLevel = 0, Pivot = None, Root = None\<rparr>"

definition Tree_Len :: "Tree \<Rightarrow> error + nat" where
  "Tree_Len t = (case Root t of None \<Rightarrow> Inl NilPointer | Some r \<Rightarrow> Inr (len r))"

definition Tree_Search :: "Tree \<Rightarrow> OverlapKeeper \<Rightarrow> error + OverlapKeeper" where
  "Tree_Search t k = (case Root t of None \<Rightarrow> Inr k | Some r \<Rightarrow> search r k)"

definition set_defaults :: "Tree \<Rightarrow> Bounded \<Rightarrow> error + Tree" where
  "set_defaults t b =
     (let t1 = (if FillLevel t < 1 then t\<lparr>FillLevel := FillLevel DefaultOptions\<rparr> else t) in
      if Pivot t1 = None
      then after (Dims (MinP (Bounds b))) (\<lambda>n.
             if 2 \<le> n \<or> n \<le> 4 then Inr (t1\<lparr>Pivot := Pivot DefaultOptions\<rparr>)
             else Inl PivotNotSet)
      else Inr t1)"

definition Tree_Insert :: "conversion \<Rightarrow> Tree \<Rightarrow> Bounded \<Rightarrow> error + Tree" where
  "Tree_Insert conv t b =
     after (set_defaults t b) (\<lambda>t2.
       case Root t2 of
         None \<Rightarrow>
           after (rebound_nil (Leaf (Bounding None None) [b])) (\<lambda>l. Inr (t2\<lparr>Root := Some l\<rparr>))
       | Some r0 \<Rightarrow>
           after (Node_insert conv (Options.truncate t2) b r0) (\<lambda>(r1, split).
             case split of
               None \<Rightarrow> Inr (t2\<lparr>Root := Some r1\<rparr>)
             | Some s \<Rightarrow>
                 after (rebound_nil (Branch (Bounding None None) [r1, s])) (\<lambda>r.
                   Inr (t2\<lparr>Root := Some r\<rparr>))))"

text \<open>A sequence of inserts, stopping at the first panic.\<close>

fun insert_all :: "conversion \<Rightarrow> Tree \<Rightarrow> Bounded list \<Rightarrow> error + Tree" where
  "insert_all conv t [] = Inr t"
| "insert_all conv t (b # bs) = after (Tree_Insert conv t b) (\<lambda>t'. insert_all conv t' bs)"

section \<open>The three curves as one recursion\<close>

text \<open>
  The definitions of this section are not part of the program: they restate the loops of
  the three curves as one recursion over the levels, with the dimension \<open>N\<close>, the
  orientation steps, the Gray code of a level's bits and its inverse as parameters.  The
  lemmas below show that the loops of the program compute these functions.
\<close>

definition bits_at :: "nat \<Rightarrow> int list \<Rightarrow> int list" where
  "bits_at n v = map (\<lambda>x. drop_bit n x AND 1) v"

definition low :: "nat \<Rightarrow> int list \<Rightarrow> int list" where
  "low m v = map (take_bit m) v"

definition place :: "nat \<Rightarrow> int list \<Rightarrow> int list \<Rightarrow> int list" where
  "place n w r = map2 (+) w (map (push_bit n) r)"

fun gpos :: "nat \<Rightarrow> (nat \<Rightarrow> int list \<Rightarrow> int \<Rightarrow> int list) \<Rightarrow> (int list \<Rightarrow> int) \<Rightarrow>
    nat \<Rightarrow> nat \<Rightarrow> int list \<Rightarrow> int" where
  "gpos N rF enc k 0 v = 0"
| "gpos N rF enc k (Suc n) v =
     (let e = enc (bits_at n v) in push_bit (N * n) e + gpos N rF enc k n (rF k v e))"

fun hpos :: "nat \<Rightarrow> (nat \<Rightarrow> int list \<Rightarrow> int \<Rightarrow> int list) \<Rightarrow> (int list \<Rightarrow> int) \<Rightarrow>
    nat \<Rightarrow> int list \<Rightarrow> int" where
  "hpos N rF enc 0 v = 0"
| "hpos N rF enc (Suc n) v =
     (let e = enc (bits_at n v) in push_bit (N * n) e + hpos N rF enc n (rF n (low n v) e))"

fun gcoord :: "nat \<Rightarrow> (nat \<Rightarrow> int list \<Rightarrow> int \<Rightarrow> int list) \<Rightarrow> (int \<Rightarrow> int list) \<Rightarrow>
    nat \<Rightarrow> int \<Rightarrow> int list" where
  "gcoord N rR dec 0 d = replicate N 0"
| "gcoord N rR dec (Suc k) d =
     (let e = take_bit N (drop_bit (N * k) d)
      in place k (rR k (gcoord N rR dec k d) e) (dec e))"

definition is_bits :: "nat \<Rightarrow> int list \<Rightarrow> bool" where
  "is_bits N bs = (length bs = N \<and> set bs \<subseteq> {0, 1})"

definition orients :: "nat \<Rightarrow> (nat \<Rightarrow> int list \<Rightarrow> int \<Rightarrow> int list) \<Rightarrow>
    (nat \<Rightarrow> int list \<Rightarrow> int \<Rightarrow> int list) \<Rightarrow> (int list \<Rightarrow> int) \<Rightarrow> (int \<Rightarrow> int list) \<Rightarrow> bool" where
  "orients N rF rR enc dec =
     ((\<forall>n v e. length v = N \<longrightarrow> length (rF n v e) = N) \<and>
      (\<forall>n v e. length v = N \<longrightarrow> rR n (rF n v e) e = v) \<and>
      (\<forall>m n v e. length v = N \<longrightarrow> m \<le> n \<longrightarrow> low m (rF n v e) = rF m (low m v) e) \<and>
      (\<forall>bs. is_bits N bs \<longrightarrow> 0 \<le> enc bs \<and> enc bs < 2 ^ N \<and> dec (enc bs) = bs))"

definition or_same :: "int list option \<Rightarrow> int list \<Rightarrow> int list" where
  "or_same r v = (case r of Some w \<Rightarrow> w | None \<Rightarrow> v)"

definition rotF2 :: "nat \<Rightarrow> int list \<Rightarrow> int \<Rightarrow> int list" where
  "rotF2 n v e = or_same (rot2 n v e) v"

definition rotF3 :: "nat \<Rightarrow> int list \<Rightarrow> int \<Rightarrow> int list" where
  "rotF3 n v e = or_same (rot3 False n v e) v"

definition rotR3 :: "nat \<Rightarrow> int list \<Rightarrow> int \<Rightarrow> int list" where
  "rotR3 n v e = or_same (rot3 True n v e) v"

definition rotF4 :: "nat \<Rightarrow> int list \<Rightarrow> int \<Rightarrow> int list" where
  "rotF4 n v e = or_same (rot4 False n v e) v"

definition rotR4 :: "nat \<Rightarrow> int list \<Rightarrow> int \<Rightarrow> int list" where
  "rotR4 n v e = or_same (rot4 True n v e) v"

definition enc2 :: "int list \<Rightarrow> int" where
  "enc2 bs = push_bit 1 (bs ! 1) OR ((bs ! 1) XOR (bs ! 0))"

definition dec2 :: "int \<Rightarrow> int list" where
  "dec2 e = [(drop_bit 0 e XOR drop_bit 1 e) AND 1, drop_bit 1 e]"

definition enc3 :: "int list \<Rightarrow> int" where
  "enc3 bs = push_bit 2 (bs ! 2) OR push_bit 1 ((bs ! 2) XOR (bs ! 1)) OR ((bs ! 2) XOR (bs ! 1) XOR (bs ! 0))"

definition dec3 :: "int \<Rightarrow> int list" where
  "dec3 e = [(drop_bit 0 e XOR drop_bit 1 e) AND 1, (drop_bit 1 e XOR drop_bit 2 e) AND 1, drop_bit 2 e]"

definition enc_step :: "int \<Rightarrow> int \<Rightarrow> int" where
  "enc_step b e = push_bit 1 e OR ((e XOR b) AND 1)"

definition enc4 :: "int list \<Rightarrow> int" where
  "enc4 bs = enc_step (bs ! 0) (enc_step (bs ! 1) (enc_step (bs ! 2) (enc_step (bs ! 3) 0)))"

definition dec4 :: "int \<Rightarrow> int list" where
  "dec4 e = [(e XOR drop_bit 1 e) AND 1, (drop_bit 1 e XOR drop_bit 2 e) AND 1,
             (drop_bit 2 e XOR drop_bit 3 e) AND 1, (drop_bit 3 e XOR drop_bit 4 e) AND 1]"

text \<open>
  For the adjacency of consecutive cells: the sum of the distances along the axes, the
  properties of the reverse orientation steps that the induction on the order uses, and
  the relation of the claim, that two cells differ on exactly one axis, by exactly one.
\<close>

definition l1 :: "int list \<Rightarrow> int list \<Rightarrow> int" where
  "l1 v u = sum_list (map2 (\<lambda>x y. \<bar>x - y\<bar>) v u)"

definition steps :: "nat \<Rightarrow> (nat \<Rightarrow> int list \<Rightarrow> int \<Rightarrow> int list) \<Rightarrow> (int \<Rightarrow> int list) \<Rightarrow> bool" where
  "steps N rR dec =
     ((\<forall>k v e. length v = N \<longrightarrow> length (rR k v e) = N) \<and>
      (\<forall>k v e. length v = N \<longrightarrow> low k v = v \<longrightarrow> low k (rR k v e) = rR k v e) \<and>
      (\<forall>k v u e. length v = N \<longrightarrow> length u = N \<longrightarrow> low k v = v \<longrightarrow> low k u = u \<longrightarrow>
         l1 (rR k v e) (rR k u e) = l1 v u) \<and>
      (\<forall>e. 0 \<le> e \<longrightarrow> e < 2 ^ N \<longrightarrow> is_bits N (dec e)) \<and>
      (\<forall>k. place k (rR k (replicate N 0) 0) (dec 0) = replicate N 0) \<and>
      (\<forall>k e. 0 \<le> e \<longrightarrow> e + 1 < 2 ^ N \<longrightarrow>
         l1 (place k (rR k (gcoord N rR dec k (2 ^ (N * k) - 1)) e) (dec e))
            (place k (rR k (replicate N 0) (e + 1)) (dec (e + 1))) = 1))"

definition one_axis_apart :: "int list \<Rightarrow> int list \<Rightarrow> bool" where
  "one_axis_apart v u =
     (length v = length u \<and>
      (\<exists>i<length v. \<bar>v ! i - u ! i\<bar> = 1 \<and> (\<forall>j<length v. j \<noteq> i \<longrightarrow> v ! j = u ! j)))"

section \<open>The invariant of the tree, and concrete inputs\<close>

text \<open>
  The bounds invariant of the spec: the bounds of every node are the tight extent of what
  the node holds.
\<close>

fun tight :: "Node \<Rightarrow> bool" where
  "tight (Leaf b vs) = (calculateBounds (map Bounds vs) = Inr b)"
| "tight (Branch b cs) = (calculateBounds (map Node_Bounds cs) = Inr b \<and> list_all tight cs)"

text \<open>
  The positions that the spec describes for \<open>HilbertCurvePivot(k)\<close>: as \<open>hilbert_points\<close>,
  with the grid and the curve of the order that the caller gave.
\<close>

definition hilbert_points_spec :: "conversion \<Rightarrow> nat \<Rightarrow> Bounding list \<Rightarrow> error + int list" where
  "hilbert_points_spec conv k bs =
     after (Dims (MinP (hd bs))) (\<lambda>n.
       if n = 2 \<or> n = 3 \<or> n = 4 then
         after (calculateBounds bs) (\<lambda>bounds.
           for_axes [0..<length bs] (\<lambda>i.
             after (center_of (bs ! i)) (\<lambda>center.
             after (quantize conv bounds (push_bit k 1) center) (\<lambda>q. Curve n k q))))
       else Inl (NoCurve n))"

definition box :: "nat \<Rightarrow> Vector \<Rightarrow> Vector \<Rightarrow> Bounded" where
  "box n lo hi = Bounded n (Bounding (Some lo) (Some hi))"

text \<open>
  Seven unit squares in the plane.  All coordinates are integers, the centers are halves
  and both sets that the pivot sees span 8 along each axis, so every \<open>float64\<close> operation
  of the run is exact.
\<close>

definition seven_squares :: "Bounded list" where
  "seven_squares =
     [box 1 [0, 0] [1, 1], box 2 [2, 0] [3, 1], box 3 [0, 2] [1, 3], box 4 [2, 2] [3, 3],
      box 5 [7, 7] [8, 8], box 6 [7, 5] [8, 6], box 7 [9, 7] [10, 8]]"

definition seven_leaves :: "Node list" where
  "seven_leaves =
     [Leaf (Bounding (Some [0, 0]) (Some [1, 3])) [box 1 [0, 0] [1, 1], box 3 [0, 2] [1, 3]],
      Leaf (Bounding (Some [2, 0]) (Some [3, 3])) [box 2 [2, 0] [3, 1], box 4 [2, 2] [3, 3]],
      Leaf (Bounding (Some [7, 5]) (Some [10, 8]))
        [box 6 [7, 5] [8, 6], box 7 [9, 7] [10, 8], box 5 [7, 7] [8, 8]]]"

definition seven_root :: Node where
  "seven_root = Branch (Bounding (Some [0, 0]) (Some [8, 8])) seven_leaves"

definition seven_tree :: Tree where
  "seven_tree =
     \<lparr>FillLevel = 2, Pivot = Some (HilbertCurvePivot_closure 5), Root = Some seven_root\<rparr>"

text \<open>The bounds of the seventh square, as a query region.\<close>

definition seventh :: Bounding where
  "seventh = Bounding (Some [9, 7]) (Some [10, 8])"

text \<open>Five boxes of dimension 5, side by side.\<close>

definition five_of_dimension_5 :: "Bounded list" where
  "five_of_dimension_5 =
     [box 1 [1, 0, 0, 0, 0] [2, 1, 1, 1, 1], box 2 [2, 0, 0, 0, 0] [3, 1, 1, 1, 1],
      box 3 [3, 0, 0, 0, 0] [4, 1, 1, 1, 1], box 4 [4, 0, 0, 0, 0] [5, 1, 1, 1, 1],
      box 5 [5, 0, 0, 0, 0] [6, 1, 1, 1, 1]]"

text \<open>Three squares inside \<open>[0, 4] \<times> [0, 4]\<close>; the first two lie in the same quarter.\<close>

definition three_squares :: "Bounded list" where
  "three_squares = [box 1 [1 / 2, 1 / 2] [3 / 2, 3 / 2], box 2 [0, 0] [1, 1], box 3 [3, 3] [4, 4]]"


text \<open>
  Two segments on the first axis: the tight bounds of the set, from \<open>(0, 0)\<close> to
  \<open>(4, 0)\<close>, are degenerate on the second axis.
\<close>

definition two_segments :: "Bounded list" where
  "two_segments = [box 1 [0, 0] [1, 0], box 2 [3, 0] [4, 0]]"

text \<open>
  Two implementations of the conversion of a NaN or an infinity, after the instruction
  that the Go compiler emits for \<open>int(f)\<close>: on amd64 the result is the least \<open>int\<close> in
  the three cases; on arm64 the conversion saturates, and a NaN gives 0.
\<close>

definition amd64 :: conversion where
  "amd64 c = - (2 ^ 63)"

definition arm64 :: conversion where
  "arm64 c = (case c of NaN \<Rightarrow> 0 | PosInf \<Rightarrow> 2 ^ 63 - 1 | NegInf \<Rightarrow> - (2 ^ 63))"
section \<open>Properties of the operators\<close>

lemma lowbits_mask: "lowbits n = mask n"
  by (simp add: lowbits_def mask_eq_exp_minus_1 push_bit_eq_mult)

lemma xor_lowbits_twice: "(x XOR lowbits n) XOR lowbits n = x"
  by (simp add: xor.assoc)

lemma do_op_length: "do_op c n v = Some v' \<Longrightarrow> length v' = length v"
  by (cases c) (auto split: if_splits)

lemma do_op_involution:
  assumes "do_op c n v = Some v'"
  shows "do_op c n v' = Some v"
proof (cases c)
  case (invert i j)
  with assms show ?thesis
    by (cases "i = j")
       (auto split: if_splits simp: xor_lowbits_twice nth_list_update list_update_swap)
next
  case (swap i j)
  with assms show ?thesis
    by (cases "i = j")
       (auto split: if_splits simp: nth_list_update list_update_swap)
next
  case (flip i j)
  with assms show ?thesis
    by (cases "i = j")
       (auto split: if_splits simp: xor_lowbits_twice nth_list_update list_update_swap)
qed

lemma do2_reverse:
  assumes "do2 False n v a b = Some v'"
  shows "do2 True n v' a b = Some v"
  using assms
  by (auto simp: do2_def Option.bind_eq_Some_conv dest: do_op_involution)

lemma do2_forward:
  assumes "do2 True n v a b = Some v'"
  shows "do2 False n v' a b = Some v"
  using assms
  by (auto simp: do2_def Option.bind_eq_Some_conv dest: do_op_involution)

lemma rot2_undo: "rot2 n v e = Some v' \<Longrightarrow> rot2 n v' e = Some v"
  by (auto simp: rot2_def simp del: do_op.simps split: if_splits intro: do_op_involution)

lemma rot3_undo: "rot3 False n v e = Some v' \<Longrightarrow> rot3 True n v' e = Some v"
  by (auto simp: rot3_def simp del: do_op.simps split: if_splits
      intro: do_op_involution do2_reverse)

lemma rot4_undo: "rot4 False n v e = Some v' \<Longrightarrow> rot4 True n v' e = Some v"
  by (auto simp: rot4_def simp del: do_op.simps split: if_splits
      intro: do_op_involution do2_reverse)

lemma rot3_redo: "rot3 True n v e = Some v' \<Longrightarrow> rot3 False n v' e = Some v"
  by (auto simp: rot3_def simp del: do_op.simps split: if_splits
      intro: do_op_involution do2_forward)

lemma rot4_redo: "rot4 True n v e = Some v' \<Longrightarrow> rot4 False n v' e = Some v"
  by (auto simp: rot4_def simp del: do_op.simps split: if_splits
      intro: do_op_involution do2_forward)

lemma rot3_total: "3 \<le> length v \<Longrightarrow> \<exists>v'. rot3 r n v e = Some v'"
  by (auto simp: rot3_def do2_def)

lemma rot4_total: "4 \<le> length v \<Longrightarrow> \<exists>v'. rot4 r n v e = Some v'"
  by (auto simp: rot4_def do2_def)

text \<open>
  Claim C10.  Each of \<open>swap\<close>, \<open>invert\<close> and \<open>flip\<close> is an involution at a fixed level:
  run on its own result it gives the slice back.  So \<open>do2\<close> in reverse undoes \<open>do2\<close>
  forward for every pair of operators, and the reverse orientation step of \<open>Hilbert3D\<close>
  and of \<open>Hilbert4D\<close> undoes the forward one, for every code \<open>e\<close>, every level and every
  slice on which the step does not panic; on a slice of at least 3 (at least 4) entries
  the forward step never panics.
\<close>

theorem operators_undo:
  "(do_op c n v = Some v' \<longrightarrow> do_op c n v' = Some v) \<and>
   (do2 False n v a b = Some v' \<longrightarrow> do2 True n v' a b = Some v) \<and>
   (rot3 False n v e = Some v' \<longrightarrow> rot3 True n v' e = Some v) \<and>
   (rot4 False n v e = Some v' \<longrightarrow> rot4 True n v' e = Some v) \<and>
   (3 \<le> length v \<longrightarrow> (\<exists>w. rot3 False n v e = Some w \<and> rot3 True n w e = Some v)) \<and>
   (4 \<le> length v \<longrightarrow> (\<exists>w. rot4 False n v e = Some w \<and> rot4 True n w e = Some v))"
proof -
  have "\<exists>w. rot3 False n v e = Some w \<and> rot3 True n w e = Some v" if "3 \<le> length v"
    using rot3_total [OF that, of False n e] rot3_undo by blast
  moreover
  have "\<exists>w. rot4 False n v e = Some w \<and> rot4 True n w e = Some v" if "4 \<le> length v"
    using rot4_total [OF that, of False n e] rot4_undo by blast
  ultimately show ?thesis
    using do_op_involution do2_reverse rot3_undo rot4_undo by blast
qed

theorem operators_undo_witness:
  "do_op (flip 0 3) 2 [1, 2, 3, 0] = Some [3, 2, 3, 2] \<and>
   do_op (flip 0 3) 2 [3, 2, 3, 2] = Some [1, 2, 3, 0] \<and>
   do2 False 2 [1, 2, 3, 0] (flip 0 3) (flip 1 3) = Some [3, 1, 3, 1] \<and>
   do2 True 2 [3, 1, 3, 1] (flip 0 3) (flip 1 3) = Some [1, 2, 3, 0] \<and>
   rot3 False 2 [1, 2, 3] 5 = Some [0, 1, 1] \<and>
   rot3 True 2 [0, 1, 1] 5 = Some [1, 2, 3] \<and>
   rot4 False 2 [1, 2, 3, 0] 13 = Some [3, 1, 3, 1] \<and>
   rot4 True 2 [3, 1, 3, 1] 13 = Some [1, 2, 3, 0]"
  using operators_undo [of "flip 0 3" 2 "[1, 2, 3, 0]" "[3, 2, 3, 2]" "flip 0 3" "flip 1 3" 0]
    operators_undo [of "flip 0 3" 2 "[1, 2, 3, 0]" "[3, 1, 3, 1]" "flip 0 3" "flip 1 3" 13]
    operators_undo [of "flip 0 3" 2 "[1, 2, 3]" "[0, 1, 1]" "flip 0 3" "flip 1 3" 5]
  by (simp add: rot3_def rot4_def do2_def lowbits_def)

section \<open>Decoding inverts encoding\<close>

lemma length_low [simp]: "length (low m v) = length v"
  by (simp add: low_def)

lemma length_bits_at [simp]: "length (bits_at n v) = length v"
  by (simp add: bits_at_def)

lemma low_low: "low m (low n v) = low (min m n) v"
  by (simp add: low_def)

lemma bit_of_take_bit: "n < m \<Longrightarrow> drop_bit n (take_bit m x) AND 1 = drop_bit n (x::int) AND 1"
  by (rule bit_eqI) (auto simp: bit_simps)

lemma bits_at_low: "n < m \<Longrightarrow> bits_at n (low m v) = bits_at n v"
  by (simp add: bits_at_def low_def bit_of_take_bit)

lemma is_bits_bits_at: "is_bits (length v) (bits_at n v)"
  by (auto simp: is_bits_def bits_at_def and_one_eq)

lemma hpos_low:
  "hpos N rF enc n (low n v) = hpos N rF enc n v"
  by (cases n) (simp_all add: bits_at_low low_low Let_def)

lemma gpos_hpos:
  assumes ok: "orients N rF rR enc dec"
  shows "n \<le> k \<Longrightarrow> length v = N \<Longrightarrow> gpos N rF enc k n v = hpos N rF enc n v"
proof (induction n arbitrary: v)
  case 0
  show ?case by simp
next
  case (Suc n)
  let ?e = "enc (bits_at n v)"
  have len: "length (rF k v ?e) = N"
    using ok Suc.prems by (simp add: orients_def)
  have "gpos N rF enc k n (rF k v ?e) = hpos N rF enc n (rF k v ?e)"
    using Suc.IH [OF _ len] Suc.prems by simp
  also have "\<dots> = hpos N rF enc n (low n (rF k v ?e))"
    by (simp add: hpos_low)
  also have "low n (rF k v ?e) = rF n (low n v) ?e"
    using ok Suc.prems by (simp add: orients_def)
  finally show ?case
    by (simp add: Let_def)
qed

lemma hpos_range:
  assumes ok: "orients N rF rR enc dec"
  shows "length v = N \<Longrightarrow> 0 \<le> hpos N rF enc n v \<and> hpos N rF enc n v < 2 ^ (N * n)"
proof (induction n arbitrary: v)
  case 0
  show ?case by simp
next
  case (Suc n)
  let ?e = "enc (bits_at n v)"
  let ?w = "rF n (low n v) ?e"
  have e: "0 \<le> ?e" "?e < 2 ^ N"
    using ok is_bits_bits_at [of v n] Suc.prems by (auto simp: orients_def)
  have "length ?w = N"
    using ok Suc.prems by (simp add: orients_def)
  then have h: "0 \<le> hpos N rF enc n ?w" "hpos N rF enc n ?w < 2 ^ (N * n)"
    using Suc.IH by auto
  have "?e + 1 \<le> 2 ^ N" using e by simp
  then have "(?e + 1) * 2 ^ (N * n) \<le> 2 ^ N * 2 ^ (N * n)"
    by (rule mult_right_mono) simp
  then have "?e * 2 ^ (N * n) + 2 ^ (N * n) \<le> 2 ^ (N * Suc n)"
    by (simp add: algebra_simps power_add)
  with e h show ?case
    by (simp add: Let_def push_bit_eq_mult)
qed

lemma gcoord_take_bit:
  "gcoord N rR dec k (take_bit (N * k) d) = gcoord N rR dec k d"
proof (induction k arbitrary: d)
  case 0
  show ?case by simp
next
  case (Suc k)
  have a: "gcoord N rR dec k (take_bit (N * Suc k) d) = gcoord N rR dec k d"
    using Suc.IH [of "take_bit (N * Suc k) d"] Suc.IH [of d]
    by (simp add: min_def)
  have b: "take_bit N (drop_bit (N * k) (take_bit (N * Suc k) d)) = take_bit N (drop_bit (N * k) d)"
    by (simp add: drop_bit_take_bit)
  show ?case
    by (simp add: a b Let_def del: mult_Suc_right)
qed

lemma bit_place: "take_bit n x + push_bit n (drop_bit n x AND 1) = take_bit (Suc n) (x::int)"
proof -
  have "drop_bit n x AND 1 = of_bool (bit x n)"
    by (simp add: and_one_eq bit_iff_odd_drop_bit mod_2_eq_odd)
  then show ?thesis
    by (simp add: take_bit_Suc_from_most push_bit_eq_mult)
qed

lemma place_low_bits: "place n (low n v) (bits_at n v) = low (Suc n) v"
  by (induction v) (simp_all add: place_def low_def bits_at_def bit_place del: push_bit_and)

lemma low_0: "low 0 v = replicate (length v) 0"
  by (induction v) (simp_all add: low_def)

lemma split_index:
  assumes "0 \<le> p" "p < 2 ^ m" "0 \<le> e" "e < 2 ^ N"
  shows "take_bit N (drop_bit m (push_bit m e + p)) = (e::int)"
    and "take_bit m (push_bit m e + p) = p"
proof -
  have "drop_bit m (push_bit m e + p) = e"
    using assms by (simp add: drop_bit_eq_div push_bit_eq_mult)
  then show "take_bit N (drop_bit m (push_bit m e + p)) = e"
    using assms by (simp add: take_bit_int_eq_self)
  show "take_bit m (push_bit m e + p) = p"
    using assms by (simp add: take_bit_eq_mod push_bit_eq_mult)
qed

lemma gcoord_hpos:
  assumes ok: "orients N rF rR enc dec"
  shows "length v = N \<Longrightarrow> low k v = v \<Longrightarrow> gcoord N rR dec k (hpos N rF enc k v) = v"
proof (induction k arbitrary: v)
  case 0
  then show ?case using low_0 [of v] by simp
next
  case (Suc k)
  let ?e = "enc (bits_at k v)"
  let ?w = "rF k (low k v) ?e"
  let ?p = "hpos N rF enc k ?w"
  let ?d = "push_bit (N * k) ?e + ?p"
  have e: "0 \<le> ?e" "?e < 2 ^ N" "dec ?e = bits_at k v"
    using ok is_bits_bits_at [of v k] Suc.prems by (auto simp: orients_def)
  have lenw: "length ?w = N"
    using ok Suc.prems by (simp add: orients_def)
  have p: "0 \<le> ?p" "?p < 2 ^ (N * k)"
    using hpos_range [OF ok lenw] by auto
  have "low k ?w = rF k (low k (low k v)) ?e"
    using ok Suc.prems by (simp add: orients_def)
  then have loww: "low k ?w = ?w"
    by (simp add: low_low)
  have "gcoord N rR dec k ?d = gcoord N rR dec k (take_bit (N * k) ?d)"
    by (simp only: gcoord_take_bit)
  also have "\<dots> = gcoord N rR dec k ?p"
    using split_index(2) [OF p e(1,2)] by simp
  also have "\<dots> = ?w"
    using Suc.IH [OF lenw loww] .
  finally have g: "gcoord N rR dec k ?d = ?w" .
  have unrot: "rR k ?w ?e = low k v"
    using ok Suc.prems by (simp add: orients_def)
  have "gcoord N rR dec (Suc k) ?d = place k (rR k ?w ?e) (dec ?e)"
    using split_index(1) [OF p e(1,2)] g by (simp add: Let_def del: mult_Suc_right)
  also have "\<dots> = low (Suc k) v"
    by (simp add: unrot e(3) place_low_bits)
  finally show ?case
    using Suc.prems by (simp add: Let_def)
qed

lemma for_levels_Nil [simp]: "for_levels [] body s = Some s"
  by (simp add: for_levels_def)

lemma fold_bind_None: "fold (\<lambda>n r. Option.bind r (body n)) ns None = None"
  by (induction ns) simp_all

lemma for_levels_Cons: "for_levels (n # ns) body s = Option.bind (body n s) (for_levels ns body)"
  by (cases "body n s") (simp_all add: for_levels_def fold_bind_None)

lemma for_levels_snoc: "for_levels (ns @ [n]) body s = Option.bind (for_levels ns body s) (body n)"
  by (simp add: for_levels_def)

lemma down_from_Suc: "down_from (Suc k) = k # down_from k"
  by (simp add: down_from_def)

lemma down_from_0: "down_from 0 = []"
  by (simp add: down_from_def)

lemma up_to_Suc: "up_to (Suc k) = up_to k @ [k]"
  by (simp add: up_to_def)

lemma up_to_0: "up_to 0 = []"
  by (simp add: up_to_def)

lemma is_bits_0: "is_bits 0 bs \<longleftrightarrow> bs = []"
  by (auto simp: is_bits_def)

lemma is_bits_Suc: "is_bits (Suc n) bs \<longleftrightarrow> (\<exists>b bs'. bs = b # bs' \<and> (b = 0 \<or> b = 1) \<and> is_bits n bs')"
  by (cases bs) (auto simp: is_bits_def)

lemma enc2_dec2: "is_bits 2 bs \<Longrightarrow> 0 \<le> enc2 bs \<and> enc2 bs < 2 ^ 2 \<and> dec2 (enc2 bs) = bs"
  by (auto simp: numeral_eq_Suc is_bits_Suc is_bits_0 enc2_def dec2_def)

lemma enc3_dec3: "is_bits 3 bs \<Longrightarrow> 0 \<le> enc3 bs \<and> enc3 bs < 2 ^ 3 \<and> dec3 (enc3 bs) = bs"
  by (auto simp: numeral_eq_Suc is_bits_Suc is_bits_0 enc3_def dec3_def)

lemma enc4_dec4: "is_bits 4 bs \<Longrightarrow> 0 \<le> enc4 bs \<and> enc4 bs < 2 ^ 4 \<and> dec4 (enc4 bs) = bs"
  by (auto simp: numeral_eq_Suc is_bits_Suc is_bits_0 enc4_def dec4_def enc_step_def)

lemma take_bit_xor_lowbits:
  "m \<le> n \<Longrightarrow> take_bit m (x XOR lowbits n) = take_bit m x XOR lowbits m"
  by (simp add: lowbits_mask min_def)

lemma take_bit_lowbits: "m \<le> n \<Longrightarrow> take_bit m (lowbits n) = lowbits m"
  by (simp add: lowbits_mask min_def)

lemma do_op_low:
  assumes "do_op c n v = Some w" "m \<le> n"
  shows "do_op c m (low m v) = Some (low m w)"
  using assms
  by (cases c) (auto simp: low_def map_update take_bit_lowbits split: if_splits)

lemma do2_low:
  assumes "do2 r n v a b = Some w" "m \<le> n"
  shows "do2 r m (low m v) a b = Some (low m w)"
  using assms
  by (auto simp: do2_def Option.bind_eq_Some_conv simp del: do_op.simps
      split: if_splits dest: do_op_low)

lemma do2_length: "do2 r n v a b = Some w \<Longrightarrow> length w = length v"
  by (auto simp: do2_def Option.bind_eq_Some_conv simp del: do_op.simps split: if_splits)
     (metis do_op_length)+

lemma rot2_low: "rot2 n v e = Some w \<Longrightarrow> m \<le> n \<Longrightarrow> rot2 m (low m v) e = Some (low m w)"
  by (auto simp: rot2_def simp del: do_op.simps split: if_splits intro: do_op_low)

lemma rot3_low: "rot3 r n v e = Some w \<Longrightarrow> m \<le> n \<Longrightarrow> rot3 r m (low m v) e = Some (low m w)"
  by (auto simp: rot3_def simp del: do_op.simps split: if_splits intro: do_op_low do2_low)

lemma rot4_low: "rot4 r n v e = Some w \<Longrightarrow> m \<le> n \<Longrightarrow> rot4 r m (low m v) e = Some (low m w)"
  by (auto simp: rot4_def simp del: do_op.simps split: if_splits intro: do_op_low do2_low)

lemma rot2_length: "rot2 n v e = Some w \<Longrightarrow> length w = length v"
  by (auto simp: rot2_def simp del: do_op.simps split: if_splits dest: do_op_length)

lemma rot3_length: "rot3 r n v e = Some w \<Longrightarrow> length w = length v"
  by (auto simp: rot3_def simp del: do_op.simps split: if_splits dest: do_op_length do2_length)

lemma rot4_length: "rot4 r n v e = Some w \<Longrightarrow> length w = length v"
  by (auto simp: rot4_def simp del: do_op.simps split: if_splits dest: do_op_length do2_length)

lemma rot2_total: "2 \<le> length v \<Longrightarrow> \<exists>v'. rot2 n v e = Some v'"
  by (auto simp: rot2_def)

lemma rot2_Some: "length v = 2 \<Longrightarrow> rot2 n v e = Some (rotF2 n v e)"
  using rot2_total [of v n e] by (auto simp: rotF2_def or_same_def)

lemma rot3F_Some: "length v = 3 \<Longrightarrow> rot3 False n v e = Some (rotF3 n v e)"
  using rot3_total [of v False n e] by (auto simp: rotF3_def or_same_def)

lemma rot3R_Some: "length v = 3 \<Longrightarrow> rot3 True n v e = Some (rotR3 n v e)"
  using rot3_total [of v True n e] by (auto simp: rotR3_def or_same_def)

lemma rot4F_Some: "length v = 4 \<Longrightarrow> rot4 False n v e = Some (rotF4 n v e)"
  using rot4_total [of v False n e] by (auto simp: rotF4_def or_same_def)

lemma rot4R_Some: "length v = 4 \<Longrightarrow> rot4 True n v e = Some (rotR4 n v e)"
  using rot4_total [of v True n e] by (auto simp: rotR4_def or_same_def)

lemma orients2: "orients 2 rotF2 rotF2 enc2 dec2"
  unfolding orients_def
proof (intro conjI allI impI)
  fix n and v :: "int list" and e assume "length v = 2"
  then show "length (rotF2 n v e) = 2"
    using rot2_Some rot2_length by metis
next
  fix n and v :: "int list" and e assume v: "length v = 2"
  then have "length (rotF2 n v e) = 2"
    using rot2_Some rot2_length by metis
  then show "rotF2 n (rotF2 n v e) e = v"
    using rot2_undo [of n v e] rot2_Some v by (metis option.inject)
next
  fix m n :: nat and v :: "int list" and e assume "length v = 2" "m \<le> n"
  then show "low m (rotF2 n v e) = rotF2 m (low m v) e"
    using rot2_low [of n v e _ m] rot2_Some [of v n e] rot2_Some [of "low m v" m e] by simp
qed (use enc2_dec2 in auto)

lemma orients3: "orients 3 rotF3 rotR3 enc3 dec3"
  unfolding orients_def
proof (intro conjI allI impI)
  fix n and v :: "int list" and e assume "length v = 3"
  then show "length (rotF3 n v e) = 3"
    using rot3F_Some rot3_length by metis
next
  fix n and v :: "int list" and e assume v: "length v = 3"
  then have "length (rotF3 n v e) = 3"
    using rot3F_Some rot3_length by metis
  then show "rotR3 n (rotF3 n v e) e = v"
    using rot3_undo [of n v e] rot3F_Some rot3R_Some v by (metis option.inject)
next
  fix m n :: nat and v :: "int list" and e assume "length v = 3" "m \<le> n"
  then show "low m (rotF3 n v e) = rotF3 m (low m v) e"
    using rot3_low [of False n v e _ m] rot3F_Some [of v n e] rot3F_Some [of "low m v" m e] by simp
qed (use enc3_dec3 in auto)

lemma orients4: "orients 4 rotF4 rotR4 enc4 dec4"
  unfolding orients_def
proof (intro conjI allI impI)
  fix n and v :: "int list" and e assume "length v = 4"
  then show "length (rotF4 n v e) = 4"
    using rot4F_Some rot4_length by metis
next
  fix n and v :: "int list" and e assume v: "length v = 4"
  then have "length (rotF4 n v e) = 4"
    using rot4F_Some rot4_length by metis
  then show "rotR4 n (rotF4 n v e) e = v"
    using rot4_undo [of n v e] rot4F_Some rot4R_Some v by (metis option.inject)
next
  fix m n :: nat and v :: "int list" and e assume "length v = 4" "m \<le> n"
  then show "low m (rotF4 n v e) = rotF4 m (low m v) e"
    using rot4_low [of False n v e _ m] rot4F_Some [of v n e] rot4F_Some [of "low m v" m e] by simp
qed (use enc4_dec4 in auto)

lemma len2: "length v = 2 \<Longrightarrow> \<exists>a b. v = [a, b]"
  by (cases v; cases "tl v"; auto)
lemma len3: "length v = 3 \<Longrightarrow> \<exists>a b c. v = [a, b, c]"
  by (cases v; cases "tl v"; cases "tl (tl v)"; auto)
lemma len4: "length v = 4 \<Longrightarrow> \<exists>a b c d. v = [a, b, c, d]"
  by (cases v; cases "tl v"; cases "tl (tl v)"; cases "tl (tl (tl v))"; auto)

lemma pos_loop:
  assumes body: "\<And>n d v. length v = N \<Longrightarrow>
      body n (d, v) = Some (d + push_bit (N * n) (enc (bits_at n v)), rF k v (enc (bits_at n v)))"
    and len: "\<And>v e. length v = N \<Longrightarrow> length (rF k v e) = N"
  shows "length v = N \<Longrightarrow>
    \<exists>v'. for_levels (down_from n) body (d, v) = Some (d + gpos N rF enc k n v, v') \<and> length v' = N"
proof (induction n arbitrary: d v)
  case 0
  then show ?case by (simp add: down_from_0)
next
  case (Suc n)
  let ?e = "enc (bits_at n v)"
  have "length (rF k v ?e) = N"
    using len Suc.prems by simp
  from Suc.IH [OF this, of "d + push_bit (N * n) ?e"] show ?case
    using Suc.prems by (simp add: down_from_Suc for_levels_Cons body Let_def add.assoc)
qed

lemma coord_loop:
  assumes body: "\<And>n v pos. length v = N \<Longrightarrow>
      body n (v, pos) = Some (place n (rR n v (take_bit N pos)) (dec (take_bit N pos)), drop_bit N pos)"
    and len: "\<And>n v e. length v = N \<Longrightarrow> length (place n (rR n v e) (dec e)) = N"
  shows "for_levels (up_to k) body (replicate N 0, d) =
      Some (gcoord N rR dec k d, drop_bit (N * k) d) \<and> length (gcoord N rR dec k d) = N"
proof (induction k)
  case 0
  show ?case by (simp add: up_to_0)
next
  case (Suc k)
  then show ?case
    by (simp add: up_to_Suc for_levels_snoc body len Let_def add.commute del: mult_Suc_right)
       (simp add: add.commute)
qed

lemma elem_Some: "i < length v \<Longrightarrow> elem v i = Some (v ! i)"
  by (simp add: elem_def)

lemma bits_at_nth: "i < length v \<Longrightarrow> bits_at n v ! i = drop_bit n (v ! i) AND 1"
  by (simp add: bits_at_def)

lemma Pos2D_body_eq:
  assumes "length v = 2"
  shows "Pos2D_body k n (d, v) =
     Some (d + push_bit (2 * n) (enc2 (bits_at n v)), rotF2 k v (enc2 (bits_at n v)))"
proof -
  have a: "elem v 0 = Some (v ! 0)" "elem v 1 = Some (v ! 1)"
    using assms by (simp_all add: elem_Some)
  have b: "bits_at n v ! 0 = drop_bit n (v ! 0) AND 1" "bits_at n v ! 1 = drop_bit n (v ! 1) AND 1"
    using assms by (simp_all add: bits_at_nth)
  show ?thesis
    unfolding Pos2D_body_def enc2_def Let_def b
    by (simp only: a rot2_Some [OF assms] Option.bind.simps prod.case)
qed

lemma Pos3D_body_eq:
  assumes "length v = 3"
  shows "Pos3D_body k n (d, v) =
     Some (d + push_bit (3 * n) (enc3 (bits_at n v)), rotF3 k v (enc3 (bits_at n v)))"
proof -
  have a: "elem v 0 = Some (v ! 0)" "elem v 1 = Some (v ! 1)" "elem v 2 = Some (v ! 2)"
    using assms by (simp_all add: elem_Some)
  have b: "bits_at n v ! 0 = drop_bit n (v ! 0) AND 1" "bits_at n v ! 1 = drop_bit n (v ! 1) AND 1"
    "bits_at n v ! 2 = drop_bit n (v ! 2) AND 1"
    using assms by (simp_all add: bits_at_nth)
  show ?thesis
    unfolding Pos3D_body_def enc3_def Let_def b
    by (simp only: a rot3F_Some [OF assms] Option.bind.simps prod.case)
qed

lemma down_from_4: "down_from 4 = [3, 2, 1, 0]"
  by code_simp

lemma up_to_4: "up_to 4 = [0, 1, 2, 3]"
  by code_simp

lemma Pos4D_code:
  assumes "length v = 4"
  shows "for_levels (down_from 4) (Pos4D_code_body v n) 0 = Some (enc4 (bits_at n v))"
proof -
  have a: "elem v 0 = Some (v ! 0)" "elem v 1 = Some (v ! 1)" "elem v 2 = Some (v ! 2)"
    "elem v 3 = Some (v ! 3)"
    using assms by (simp_all add: elem_Some)
  have b: "bits_at n v ! 0 = drop_bit n (v ! 0) AND 1" "bits_at n v ! 1 = drop_bit n (v ! 1) AND 1"
    "bits_at n v ! 2 = drop_bit n (v ! 2) AND 1" "bits_at n v ! 3 = drop_bit n (v ! 3) AND 1"
    using assms by (simp_all add: bits_at_nth)
  show ?thesis
    unfolding down_from_4 for_levels_Cons for_levels_Nil Pos4D_code_body_def enc4_def
      enc_step_def Let_def b
    by (simp only: a Option.bind.simps)
qed

lemma Pos4D_body_eq:
  assumes "length v = 4"
  shows "Pos4D_body k n (d, v) =
     Some (d + push_bit (4 * n) (enc4 (bits_at n v)), rotF4 k v (enc4 (bits_at n v)))"
  unfolding Pos4D_body_def
  by (simp only: Pos4D_code [OF assms] rot4F_Some [OF assms] Option.bind.simps prod.case)

lemma place2: "place n [a, b] [x, y] = [a + push_bit n x, b + push_bit n y]"
  by (simp add: place_def del: push_bit_and)
lemma place3: "place n [a, b, c] [x, y, z] = [a + push_bit n x, b + push_bit n y, c + push_bit n z]"
  by (simp add: place_def del: push_bit_and)
lemma place4: "place n [a, b, c, d] [x, y, z, u] =
    [a + push_bit n x, b + push_bit n y, c + push_bit n z, d + push_bit n u]"
  by (simp add: place_def del: push_bit_and)

lemma upd2: "[a, b][0 := x, 1 := y] = [x, y]" "[a, b] ! 0 = a" "[a, b] ! 1 = b"
  by simp_all
lemma upd3: "[a, b, c][0 := x, 1 := y, 2 := z] = [x, y, z]"
  "[a, b, c] ! 0 = a" "[a, b, c] ! 1 = b" "[a, b, c] ! 2 = c"
  by (simp_all add: numeral_2_eq_2)

lemma Coord2D_body_eq:
  assumes "length v = 2"
  shows "Coord2D_body n (v, pos) =
     Some (place n (rotF2 n v (take_bit 2 pos)) (dec2 (take_bit 2 pos)), drop_bit 2 pos)"
proof -
  have "length (rotF2 n v (take_bit 2 pos)) = 2"
    using assms rot2_Some rot2_length by metis
  then obtain a b where ab: "rotF2 n v (take_bit 2 pos) = [a, b]"
    using len2 by blast
  have e: "pos AND 3 = take_bit 2 pos"
    by (simp add: take_bit_eq_mask mask_numeral)
  show ?thesis
    unfolding Coord2D_body_def dec2_def
    by (simp only: Let_def prod.case e rot2_Some [OF assms] ab Option.bind.simps place2 upd2)
qed

lemma Coord3D_body_eq:
  assumes "length v = 3"
  shows "Coord3D_body n (v, pos) =
     Some (place n (rotR3 n v (take_bit 3 pos)) (dec3 (take_bit 3 pos)), drop_bit 3 pos)"
proof -
  have "length (rotR3 n v (take_bit 3 pos)) = 3"
    using assms rot3R_Some rot3_length by metis
  then obtain a b c where ab: "rotR3 n v (take_bit 3 pos) = [a, b, c]"
    using len3 by blast
  have e: "pos AND 7 = take_bit 3 pos"
    by (simp add: take_bit_eq_mask mask_numeral)
  show ?thesis
    unfolding Coord3D_body_def dec3_def
    by (simp only: Let_def prod.case e rot3R_Some [OF assms] ab Option.bind.simps place3 upd3)
qed

lemma Coord4D_bits:
  assumes "length w = 4"
  shows "\<exists>e'. for_levels (up_to 4) (Coord4D_bits_body n) (w, e) = Some (place n w (dec4 e), e')"
proof -
  obtain a b c d where w: "w = [a, b, c, d]"
    using assms len4 by blast
  have s: "Suc (Suc 0) = 2" "Suc (Suc (Suc 0)) = 3" "Suc (Suc (Suc (Suc 0))) = 4"
    by simp_all
  show ?thesis
    unfolding w place4 dec4_def
    by (simp add: up_to_4 for_levels_Cons Coord4D_bits_body_def elem_def s del: push_bit_and)
qed

lemma Coord4D_body_eq:
  assumes "length v = 4"
  shows "Coord4D_body n (v, pos) =
     Some (place n (rotR4 n v (take_bit 4 pos)) (dec4 (take_bit 4 pos)), drop_bit 4 pos)"
proof -
  have len: "length (rotR4 n v (take_bit 4 pos)) = 4"
    using assms rot4R_Some rot4_length by metis
  have e: "pos AND (push_bit 4 1 - 1) = take_bit 4 pos"
    by (simp add: take_bit_eq_mask mask_numeral)
  obtain e' where "for_levels (up_to 4) (Coord4D_bits_body n) (rotR4 n v (take_bit 4 pos), take_bit 4 pos)
      = Some (place n (rotR4 n v (take_bit 4 pos)) (dec4 (take_bit 4 pos)), e')"
    using Coord4D_bits [OF len] by blast
  then show ?thesis
    unfolding Coord4D_body_def
    by (simp only: Let_def prod.case e rot4R_Some [OF assms] Option.bind.simps fst_conv)
qed

lemma low_id: "\<forall>x\<in>set v. 0 \<le> x \<and> x < 2 ^ k \<Longrightarrow> low k v = v"
  by (simp add: low_def map_idI take_bit_int_eq_self)

lemma curve_roundtrip:
  assumes ok: "orients N rF rR enc dec"
    and pbody: "\<And>n d v. length v = N \<Longrightarrow>
      pbody n (d, v) = Some (d + push_bit (N * n) (enc (bits_at n v)), rF k v (enc (bits_at n v)))"
    and cbody: "\<And>n v pos. length v = N \<Longrightarrow>
      cbody n (v, pos) = Some (place n (rR n v (take_bit N pos)) (dec (take_bit N pos)), drop_bit N pos)"
    and clen: "\<And>n v e. length v = N \<Longrightarrow> length (place n (rR n v e) (dec e)) = N"
    and v: "length v = N" "\<forall>x\<in>set v. 0 \<le> x \<and> x < 2 ^ k"
  shows "\<exists>d v'. for_levels (down_from k) pbody (0, v) = Some (d, v') \<and>
    map_option fst (for_levels (up_to k) cbody (replicate N 0, d)) = Some v"
proof -
  have len: "\<And>v e. length v = N \<Longrightarrow> length (rF k v e) = N"
    using ok by (simp add: orients_def)
  obtain v' where p: "for_levels (down_from k) pbody (0, v) = Some (0 + gpos N rF enc k k v, v')"
    using pos_loop [of N pbody enc rF k v k 0, OF pbody len v(1)] by blast
  have h: "gpos N rF enc k k v = hpos N rF enc k v"
    using gpos_hpos [OF ok _ v(1), of k k] by simp
  have "gcoord N rR dec k (hpos N rF enc k v) = v"
    using gcoord_hpos [OF ok v(1) low_id [OF v(2)]] .
  then have "map_option fst (for_levels (up_to k) cbody (replicate N 0, hpos N rF enc k v)) = Some v"
    using coord_loop [of N cbody rR dec k "hpos N rF enc k v", OF cbody clen] by simp
  with p h show ?thesis by simp
qed

lemma length_place2: "length v = 2 \<Longrightarrow> length (place n (rotF2 n v e) (dec2 e)) = 2"
  using rot2_Some [of v n e] rot2_length [of n v e] by (simp add: place_def dec2_def)
lemma length_place3: "length v = 3 \<Longrightarrow> length (place n (rotR3 n v e) (dec3 e)) = 3"
  using rot3R_Some [of v n e] rot3_length [of True n v e] by (simp add: place_def dec3_def)
lemma length_place4: "length v = 4 \<Longrightarrow> length (place n (rotR4 n v e) (dec4 e)) = 4"
  using rot4R_Some [of v n e] rot4_length [of True n v e] by (simp add: place_def dec4_def)

lemma zeros: "replicate 2 0 = [0, 0::int]" "replicate 3 0 = [0, 0, 0::int]"
  "replicate 4 0 = [0, 0, 0, 0::int]"
  by (simp_all add: numeral_eq_Suc)

lemma Coord2D_Pos2D:
  assumes "length v = 2" "\<forall>x\<in>set v. 0 \<le> x \<and> x < 2 ^ k"
  shows "\<exists>d v'. Pos2D k v = Some (d, v') \<and> Coord2D k d = Some v"
  using curve_roundtrip [OF orients2 Pos2D_body_eq Coord2D_body_eq length_place2 assms]
  by (simp add: Pos2D_def Coord2D_def zeros)

lemma Coord3D_Pos3D:
  assumes "length v = 3" "\<forall>x\<in>set v. 0 \<le> x \<and> x < 2 ^ k"
  shows "\<exists>d v'. Pos3D k v = Some (d, v') \<and> Coord3D k d = Some v"
  using curve_roundtrip [OF orients3 Pos3D_body_eq Coord3D_body_eq length_place3 assms]
  by (simp add: Pos3D_def Coord3D_def zeros)

lemma Coord4D_Pos4D:
  assumes "length v = 4" "\<forall>x\<in>set v. 0 \<le> x \<and> x < 2 ^ k"
  shows "\<exists>d v'. Pos4D k v = Some (d, v') \<and> Coord4D k d = Some v"
  using curve_roundtrip [OF orients4 Pos4D_body_eq Coord4D_body_eq length_place4 assms]
  by (simp add: Pos4D_def Coord4D_def zeros)

text \<open>
  Claim C1.  For the dimensions 2, 3 and 4, every order \<open>k\<close> from 1 to 4 and every
  coordinate vector \<open>v\<close> of that dimension with all components in \<open>[0, 2^k)\<close>: \<open>Pos\<close> on
  (a copy of) \<open>v\<close> returns a position \<open>d\<close>, leaving the copy as some \<open>v'\<close>, and \<open>Coord\<close>
  of \<open>d\<close> is the original \<open>v\<close>.  (The lemmas above give the same for every order, in
  unbounded arithmetic.)
\<close>

theorem inverse_law:
  assumes "1 \<le> k" "k \<le> 4" "\<forall>x\<in>set v. 0 \<le> x \<and> x < 2 ^ k"
  shows "(length v = 2 \<longrightarrow> (\<exists>d v'. Pos2D k v = Some (d, v') \<and> Coord2D k d = Some v)) \<and>
         (length v = 3 \<longrightarrow> (\<exists>d v'. Pos3D k v = Some (d, v') \<and> Coord3D k d = Some v)) \<and>
         (length v = 4 \<longrightarrow> (\<exists>d v'. Pos4D k v = Some (d, v') \<and> Coord4D k d = Some v))"
  using assms(3) Coord2D_Pos2D Coord3D_Pos3D Coord4D_Pos4D by blast

theorem inverse_law_witness:
  "Pos2D 2 [3, 1] = Some (6, [3, 1]) \<and> Coord2D 2 6 = Some [3, 1] \<and>
   Pos3D 3 [5, 0, 7] = Some (446, [0, 5, 7]) \<and> Coord3D 3 446 = Some [5, 0, 7] \<and>
   Pos4D 4 [9, 15, 0, 6] = Some (11978, [9, 6, 0, 15]) \<and> Coord4D 4 11978 = Some [9, 15, 0, 6]"
proof -
  have p2: "Pos2D 2 [3, 1] = Some (6, [3, 1])"
    by code_simp
  have p3: "Pos3D 3 [5, 0, 7] = Some (446, [0, 5, 7])"
    by code_simp
  have p4: "Pos4D 4 [9, 15, 0, 6] = Some (11978, [9, 6, 0, 15])"
    by code_simp
  show ?thesis
    using inverse_law [of 2 "[3, 1]"] inverse_law [of 3 "[5, 0, 7]"]
      inverse_law [of 4 "[9, 15, 0, 6]"]
    by (simp add: p2 p3 p4)
qed

section \<open>Consecutive positions are adjacent cells\<close>

lemma l1_Nil [simp]: "l1 [] u = 0" "l1 v [] = 0"
  by (simp_all add: l1_def)

lemma l1_Cons [simp]: "l1 (x # v) (y # u) = \<bar>x - y\<bar> + l1 v u"
  by (simp add: l1_def)

lemma l1_nonneg: "0 \<le> l1 v u"
proof (induction v arbitrary: u)
  case Nil
  show ?case by simp
next
  case (Cons x v)
  show ?case using Cons [of "tl u"] by (cases u) simp_all
qed

lemma l1_zero: "length v = length u \<Longrightarrow> l1 v u = 0 \<Longrightarrow> v = u"
proof (induction v u rule: list_induct2)
  case Nil
  show ?case by simp
next
  case (Cons x v y u)
  then show ?case using l1_nonneg [of v u] by simp
qed

lemma l1_one:
  "length v = length u \<Longrightarrow> l1 v u = 1 \<Longrightarrow>
   \<exists>i<length v. \<bar>v ! i - u ! i\<bar> = 1 \<and> (\<forall>j<length v. j \<noteq> i \<longrightarrow> v ! j = u ! j)"
proof (induction v u rule: list_induct2)
  case Nil
  then show ?case by simp
next
  case (Cons x v y u)
  have nn: "0 \<le> l1 v u" by (rule l1_nonneg)
  show ?case
  proof (cases "x = y")
    case True
    with Cons.prems have "l1 v u = 1" by simp
    from Cons.IH [OF this] obtain i where i: "i < length v" "\<bar>v ! i - u ! i\<bar> = 1"
      "\<forall>j<length v. j \<noteq> i \<longrightarrow> v ! j = u ! j" by blast
    have "\<forall>j<length (x # v). j \<noteq> Suc i \<longrightarrow> (x # v) ! j = (y # u) ! j"
    proof (intro allI impI)
      fix j assume "j < length (x # v)" "j \<noteq> Suc i"
      then show "(x # v) ! j = (y # u) ! j"
        using i(3) True by (cases j) auto
    qed
    with i(1,2) show ?thesis
      by (intro exI [of _ "Suc i"]) simp
  next
    case False
    with Cons.prems nn have "\<bar>x - y\<bar> = 1" "l1 v u = 0" by simp_all
    with Cons.hyps have "v = u" by (simp add: l1_zero)
    with \<open>\<bar>x - y\<bar> = 1\<close> show ?thesis
      by (intro exI [of _ 0]) (auto simp: nth_Cons')
  qed
qed

lemma length_place: "length (place k w r) = min (length w) (length r)"
  by (simp add: place_def)

lemma l1_place:
  "length v = length u \<Longrightarrow> length u = length r \<Longrightarrow> l1 (place k v r) (place k u r) = l1 v u"
  by (induction v u r rule: list_induct3) (simp_all add: place_def del: push_bit_and)

lemma low_place:
  "length w = length r \<Longrightarrow> low k w = w \<Longrightarrow> set r \<subseteq> {0, 1} \<Longrightarrow>
   low (Suc k) (place k w r) = place k w r"
proof (induction w r rule: list_induct2)
  case Nil
  show ?case by (simp add: place_def low_def)
next
  case (Cons x w b r)
  have x: "0 \<le> x" "x < 2 ^ k"
    using Cons.prems(1) by (simp_all add: low_def take_bit_int_eq_self_iff)
  have "b = 0 \<or> b = 1" using Cons.prems(2) by simp
  then have "take_bit (Suc k) (x + push_bit k b) = x + push_bit k b"
    using x by (auto simp: take_bit_int_eq_self_iff push_bit_eq_mult)
  moreover have "low (Suc k) (place k w r) = place k w r"
    using Cons by (simp add: low_def)
  ultimately show ?case
    by (simp add: place_def low_def del: push_bit_and take_bit_Suc)
qed

lemma gcoord_shape:
  assumes st: "steps N rR dec"
  shows "length (gcoord N rR dec k d) = N \<and> low k (gcoord N rR dec k d) = gcoord N rR dec k d"
proof (induction k)
  case 0
  show ?case by (simp add: low_0)
next
  case (Suc k)
  let ?e = "take_bit N (drop_bit (N * k) d)"
  let ?w = "gcoord N rR dec k d"
  have "0 \<le> ?e" "?e < 2 ^ N" by simp_all
  then have bits: "is_bits N (dec ?e)"
    using st by (simp add: steps_def)
  have r: "length (rR k ?w ?e) = N" "low k (rR k ?w ?e) = rR k ?w ?e"
    using st Suc by (simp_all add: steps_def)
  show ?case
    using r bits low_place [of "rR k ?w ?e" "dec ?e" k]
    by (simp add: Let_def length_place is_bits_def del: mult_Suc_right)
qed

lemma gcoord_0:
  assumes st: "steps N rR dec"
  shows "gcoord N rR dec k 0 = replicate N 0"
  using st by (induction k) (simp_all add: steps_def)

lemma index_parts:
  fixes d :: int
  assumes "0 \<le> d" "d < 2 ^ (N + m)"
  shows "take_bit N (drop_bit m d) = d div 2 ^ m"
    and "take_bit m d = d mod 2 ^ m"
    and "0 \<le> d div 2 ^ m" and "d div 2 ^ m < 2 ^ N"
proof -
  have "0 \<le> d mod 2 ^ m"
    by simp
  then have le: "d div 2 ^ m * 2 ^ m \<le> d"
    using div_mult_mod_eq [of d "2 ^ m"] by linarith
  show lt: "d div 2 ^ m < 2 ^ N"
  proof (rule ccontr)
    assume "\<not> d div 2 ^ m < 2 ^ N"
    then have "2 ^ N * 2 ^ m \<le> d div 2 ^ m * (2 ^ m :: int)"
      by (simp add: mult_right_mono)
    with le assms(2) show False
      by (simp add: power_add)
  qed
  show ge: "0 \<le> d div 2 ^ m"
    using assms by (simp add: pos_imp_zdiv_nonneg_iff)
  show "take_bit N (drop_bit m d) = d div 2 ^ m"
    using lt ge by (simp add: drop_bit_eq_div take_bit_int_eq_self)
  show "take_bit m d = d mod 2 ^ m"
    by (simp add: take_bit_eq_mod)
qed

lemma gcoord_adjacent:
  assumes st: "steps N rR dec"
  shows "0 \<le> d \<Longrightarrow> d + 1 < 2 ^ (N * k) \<Longrightarrow>
    l1 (gcoord N rR dec k d) (gcoord N rR dec k (d + 1)) = 1"
proof (induction k arbitrary: d)
  case 0
  then show ?case by simp
next
  case (Suc k)
  let ?m = "N * k"
  let ?g = "gcoord N rR dec k"
  define e p where "e = d div 2 ^ ?m" and "p = d mod 2 ^ ?m"
  have d: "d = e * 2 ^ ?m + p"
    using div_mult_mod_eq [of d "2 ^ ?m"] by (simp add: e_def p_def)
  have p: "0 \<le> p" "p < 2 ^ ?m"
    by (simp_all add: p_def)
  have dlt: "d < 2 ^ (N + ?m)" "d + 1 < 2 ^ (N + ?m)"
    using Suc.prems by (simp_all add: add.commute)
  have e: "0 \<le> e" "e < 2 ^ N"
    using index_parts(3,4) [OF Suc.prems(1) dlt(1)] by (simp_all add: e_def)
  have gd: "gcoord N rR dec (Suc k) d = place k (rR k (?g p) e) (dec e)"
    using index_parts(1,2) [OF Suc.prems(1) dlt(1)] gcoord_take_bit [of N rR dec k d]
    by (simp add: Let_def e_def p_def del: mult_Suc_right)
  have d1: "0 \<le> d + 1" using Suc.prems by simp
  have gd1: "gcoord N rR dec (Suc k) (d + 1) =
      place k (rR k (?g ((d + 1) mod 2 ^ ?m)) ((d + 1) div 2 ^ ?m)) (dec ((d + 1) div 2 ^ ?m))"
    using index_parts(1,2) [OF d1 dlt(2)] gcoord_take_bit [of N rR dec k "d + 1"]
    by (simp add: Let_def del: mult_Suc_right)
  show ?case
  proof (cases "p + 1 < 2 ^ ?m")
    case True
    have dd: "d + 1 = e * 2 ^ ?m + (p + 1)" using d by simp
    have q: "(d + 1) div 2 ^ ?m = e" "(d + 1) mod 2 ^ ?m = p + 1"
      unfolding dd using True p by simp_all
    have sh: "length (?g p) = N" "low k (?g p) = ?g p"
      "length (?g (p + 1)) = N" "low k (?g (p + 1)) = ?g (p + 1)"
      using gcoord_shape [OF st] by simp_all
    have len: "length (rR k (?g p) e) = N" "length (rR k (?g (p + 1)) e) = N"
      using st sh by (simp_all add: steps_def)
    have bits: "length (dec e) = N"
      using st e by (simp add: steps_def is_bits_def)
    have "l1 (place k (rR k (?g p) e) (dec e)) (place k (rR k (?g (p + 1)) e) (dec e)) =
        l1 (rR k (?g p) e) (rR k (?g (p + 1)) e)"
      using len bits by (simp add: l1_place)
    also have "\<dots> = l1 (?g p) (?g (p + 1))"
      using st sh by (simp add: steps_def)
    also have "\<dots> = 1"
      using Suc.IH [OF p(1) True] .
    finally show ?thesis
      by (simp only: gd gd1 q)
  next
    case False
    with p have pe: "p = 2 ^ ?m - 1" by simp
    then have "d + 1 = (e + 1) * 2 ^ ?m" using d by (simp add: algebra_simps)
    then have q: "(d + 1) div 2 ^ ?m = e + 1" "(d + 1) mod 2 ^ ?m = 0"
      by simp_all
    have "(e + 1) * 2 ^ ?m < 2 ^ N * 2 ^ ?m"
      using dlt(2) \<open>d + 1 = (e + 1) * 2 ^ ?m\<close> by (simp add: power_add)
    then have e1: "e + 1 < 2 ^ N" by simp
    have "l1 (place k (rR k (?g (2 ^ ?m - 1)) e) (dec e))
        (place k (rR k (replicate N 0) (e + 1)) (dec (e + 1))) = 1"
      using st e(1) e1 by (simp add: steps_def)
    then show ?thesis
      by (simp only: gd gd1 q pe gcoord_0 [OF st])
  qed
qed

lemma xor_lowbits_diff: "take_bit k x = x \<Longrightarrow> x XOR lowbits k = lowbits k - x"
proof -
  assume a: "take_bit k x = x"
  have "take_bit k (NOT x) = mask k - take_bit k x"
    by (rule take_bit_not_eq_mask_diff)
  moreover have "take_bit k (NOT x) = take_bit k x XOR mask k"
    by (rule bit_eqI) (auto simp: bit_simps)
  ultimately show ?thesis using a by (simp add: lowbits_mask)
qed

lemma lowbits_diff_range: "take_bit k x = x \<Longrightarrow> take_bit k (lowbits k - x) = lowbits k - x"
  using xor_lowbits_diff [of k x] take_bit_xor_lowbits [of k k x] by simp

lemma lowbits_nonneg: "0 \<le> lowbits k"
  by (simp add: lowbits_def)

lemma lowbits_Suc: "lowbits (Suc k) = lowbits k + push_bit k 1"
  by (simp add: lowbits_def)

lemma low_Cons: "low k (x # v) = x # v \<longleftrightarrow> take_bit k x = x \<and> low k v = v"
  by (simp add: low_def)

lemma low_Nil: "low k [] = []"
  by (simp add: low_def)

lemma or_same_Some: "or_same (Some w) v = w"
  by (simp add: or_same_def)

lemma abs_diff_refl: "\<bar>(m - x) - (m - y)\<bar> = \<bar>x - (y::int)\<bar>"
  by simp

lemma rotF2_l1:
  assumes "length v = 2" "length u = 2" "low k v = v" "low k u = u"
  shows "l1 (rotF2 k v e) (rotF2 k u e) = l1 v u"
proof -
  obtain a b where v: "v = [a, b]" using assms(1) len2 by blast
  obtain a' b' where u: "u = [a', b']" using assms(2) len2 by blast
  show ?thesis
    using assms(3,4) unfolding v u
    by (simp add: rotF2_def rot2_def or_same_Some low_Cons xor_lowbits_diff abs_minus_commute)
qed

lemma rotR3_l1:
  assumes "length v = 3" "length u = 3" "low k v = v" "low k u = u"
  shows "l1 (rotR3 k v e) (rotR3 k u e) = l1 v u"
proof -
  obtain a b c where v: "v = [a, b, c]" using assms(1) len3 by blast
  obtain a' b' c' where u: "u = [a', b', c']" using assms(2) len3 by blast
  show ?thesis
    using assms(3,4) unfolding v u
    by (simp add: rotR3_def rot3_def do2_def or_same_Some low_Cons xor_lowbits_diff
        lowbits_diff_range numeral_2_eq_2 abs_minus_commute)
qed

lemma rotR4_l1:
  assumes "length v = 4" "length u = 4" "low k v = v" "low k u = u"
  shows "l1 (rotR4 k v e) (rotR4 k u e) = l1 v u"
proof -
  obtain a b c d where v: "v = [a, b, c, d]" using assms(1) len4 by blast
  obtain a' b' c' d' where u: "u = [a', b', c', d']" using assms(2) len4 by blast
  show ?thesis
    using assms(3,4) unfolding v u
    by (simp add: rotR4_def rot4_def do2_def or_same_Some low_Cons xor_lowbits_diff
        lowbits_diff_range numeral_2_eq_2 numeral_3_eq_3 abs_minus_commute)
qed

lemma gcoord_end_step:
  "gcoord N rR dec (Suc k) (2 ^ (N * Suc k) - 1) =
   place k (rR k (gcoord N rR dec k (2 ^ (N * k) - 1)) (2 ^ N - 1)) (dec (2 ^ N - 1))"
proof -
  have m: "(2::int) ^ (N * Suc k) - 1 = mask (N * k + N)"
    by (simp add: mask_eq_exp_minus_1)
  have "gcoord N rR dec k (mask (N * k + N)) = gcoord N rR dec k (take_bit (N * k) (mask (N * k + N)))"
    by (simp only: gcoord_take_bit)
  then have a: "gcoord N rR dec k (mask (N * k + N)) = gcoord N rR dec k (mask (N * k))"
    by (simp add: min_def)
  have b: "take_bit N (drop_bit (N * k) (mask (N * k + N) :: int)) = mask N"
    by (simp add: drop_bit_mask_eq)
  show ?thesis
    unfolding m gcoord.simps Let_def a b
    by (simp add: mask_eq_exp_minus_1)
qed

lemma rot_keeps_range:
  assumes "\<And>w. r k v e = Some w \<Longrightarrow> r k (low k v) e = Some (low k w)"
    and "low k v = v"
  shows "low k (or_same (r k v e) v) = or_same (r k v e) v"
  using assms by (cases "r k v e") (simp_all add: or_same_def)

lemma and_one_bit: "(x::int) AND 1 = 0 \<or> x AND 1 = 1"
  by (simp add: and_one_eq) presburger

lemma below4: "0 \<le> e \<Longrightarrow> e < 4 \<Longrightarrow> e = 0 \<or> e = 1 \<or> e = 2 \<or> e = (3::int)"
  by arith

lemma below8: "0 \<le> e \<Longrightarrow> e < 8 \<Longrightarrow>
    e = 0 \<or> e = 1 \<or> e = 2 \<or> e = 3 \<or> e = 4 \<or> e = 5 \<or> e = 6 \<or> e = (7::int)"
  by arith

lemma below16: "0 \<le> e \<Longrightarrow> e < 16 \<Longrightarrow>
    e = 0 \<or> e = 1 \<or> e = 2 \<or> e = 3 \<or> e = 4 \<or> e = 5 \<or> e = 6 \<or> e = 7 \<or>
    e = 8 \<or> e = 9 \<or> e = 10 \<or> e = 11 \<or> e = 12 \<or> e = 13 \<or> e = 14 \<or> e = (15::int)"
  by arith

lemma dec2_bits: "0 \<le> e \<Longrightarrow> e < 2 ^ 2 \<Longrightarrow> is_bits 2 (dec2 e)"
  using below4 [of e] by (auto simp: is_bits_def dec2_def)

lemma dec3_bits: "0 \<le> e \<Longrightarrow> e < 2 ^ 3 \<Longrightarrow> is_bits 3 (dec3 e)"
  using below8 [of e] by (auto simp: is_bits_def dec3_def)

lemma dec4_bits: "0 \<le> e \<Longrightarrow> e < 2 ^ 4 \<Longrightarrow> is_bits 4 (dec4 e)"
  using below16 [of e] by (auto simp: is_bits_def dec4_def)

lemma end2: "gcoord 2 rotF2 dec2 k (2 ^ (2 * k) - 1) = [0, lowbits k]"
proof (induction k)
  case 0
  show ?case by (simp add: lowbits_def numeral_2_eq_2)
next
  case (Suc k)
  show ?case
    unfolding gcoord_end_step Suc
    by (simp add: rotF2_def rot2_def or_same_Some dec2_def place2 lowbits_Suc)
qed

lemma end3: "gcoord 3 rotR3 dec3 k (2 ^ (3 * k) - 1) = [0, 0, lowbits k]"
proof (induction k)
  case 0
  show ?case by (simp add: lowbits_def numeral_3_eq_3)
next
  case (Suc k)
  show ?case
    unfolding gcoord_end_step Suc
    by (simp add: rotR3_def rot3_def do2_def or_same_Some dec3_def place3 lowbits_Suc numeral_2_eq_2)
qed

lemma end4: "gcoord 4 rotR4 dec4 k (2 ^ (4 * k) - 1) = [0, 0, 0, lowbits k]"
proof (induction k)
  case 0
  show ?case by (simp add: lowbits_def numeral_eq_Suc)
next
  case (Suc k)
  show ?case
    unfolding gcoord_end_step Suc
    by (simp add: rotR4_def rot4_def do2_def or_same_Some dec4_def place4 lowbits_Suc
        numeral_2_eq_2 numeral_3_eq_3)
qed

lemma lowbits_step: "2 ^ k = lowbits k + 1"
  by (simp add: lowbits_def)

lemma junction2:
  assumes "0 \<le> e" "e + 1 < 2 ^ 2"
  shows "l1 (place k (rotF2 k [0, lowbits k] e) (dec2 e))
            (place k (rotF2 k [0, 0] (e + 1)) (dec2 (e + 1))) = 1"
proof -
  have "e = 0 \<or> e = 1 \<or> e = 2" using assms by auto
  then show ?thesis
    using lowbits_nonneg [of k]
    by (elim disjE)
       (simp_all add: rotF2_def rot2_def or_same_Some dec2_def place2 lowbits_step)
qed

lemma junction3:
  assumes "0 \<le> e" "e + 1 < 2 ^ 3"
  shows "l1 (place k (rotR3 k [0, 0, lowbits k] e) (dec3 e))
            (place k (rotR3 k [0, 0, 0] (e + 1)) (dec3 (e + 1))) = 1"
proof -
  have "e = 0 \<or> e = 1 \<or> e = 2 \<or> e = 3 \<or> e = 4 \<or> e = 5 \<or> e = 6" using assms by auto
  then show ?thesis
    using lowbits_nonneg [of k]
    by (elim disjE)
       (simp_all add: rotR3_def rot3_def do2_def or_same_Some dec3_def place3 lowbits_step
          numeral_2_eq_2)
qed

lemma junction4:
  assumes "0 \<le> e" "e + 1 < 2 ^ 4"
  shows "l1 (place k (rotR4 k [0, 0, 0, lowbits k] e) (dec4 e))
            (place k (rotR4 k [0, 0, 0, 0] (e + 1)) (dec4 (e + 1))) = 1"
proof -
  have "e < 15" using assms by simp
  with assms(1) have "e = 0 \<or> e = 1 \<or> e = 2 \<or> e = 3 \<or> e = 4 \<or> e = 5 \<or> e = 6 \<or> e = 7 \<or>
      e = 8 \<or> e = 9 \<or> e = 10 \<or> e = 11 \<or> e = 12 \<or> e = 13 \<or> e = 14" by arith
  then show ?thesis
    using lowbits_nonneg [of k]
    by (elim disjE)
       (simp_all add: rotR4_def rot4_def do2_def or_same_Some dec4_def place4 lowbits_step
          numeral_2_eq_2 numeral_3_eq_3)
qed

lemma steps2: "steps 2 rotF2 dec2"
  unfolding steps_def
proof (intro conjI allI impI)
  fix k and v :: "int list" and e assume "length v = 2"
  then show "length (rotF2 k v e) = 2"
    using rot2_Some rot2_length by metis
next
  fix k and v :: "int list" and e assume "length v = 2" "low k v = v"
  then show "low k (rotF2 k v e) = rotF2 k v e"
    unfolding rotF2_def using rot_keeps_range [of rot2 k v e] rot2_low [of k v e _ k] by simp
next
  fix k and v u :: "int list" and e
  assume "length v = 2" "length u = 2" "low k v = v" "low k u = u"
  then show "l1 (rotF2 k v e) (rotF2 k u e) = l1 v u"
    by (rule rotF2_l1)
next
  fix e :: int assume "0 \<le> e" "e < 2 ^ 2"
  then show "is_bits 2 (dec2 e)" by (rule dec2_bits)
next
  fix k show "place k (rotF2 k (replicate 2 0) 0) (dec2 0) = replicate 2 0"
    by (simp add: zeros rotF2_def rot2_def or_same_Some dec2_def place2)
next
  fix k and e :: int assume "0 \<le> e" "e + 1 < 2 ^ 2"
  then show "l1 (place k (rotF2 k (gcoord 2 rotF2 dec2 k (2 ^ (2 * k) - 1)) e) (dec2 e))
      (place k (rotF2 k (replicate 2 0) (e + 1)) (dec2 (e + 1))) = 1"
    unfolding end2 zeros by (rule junction2)
qed

lemma steps3: "steps 3 rotR3 dec3"
  unfolding steps_def
proof (intro conjI allI impI)
  fix k and v :: "int list" and e assume "length v = 3"
  then show "length (rotR3 k v e) = 3"
    using rot3R_Some rot3_length by metis
next
  fix k and v :: "int list" and e assume "length v = 3" "low k v = v"
  then show "low k (rotR3 k v e) = rotR3 k v e"
    unfolding rotR3_def using rot_keeps_range [of "rot3 True" k v e] rot3_low [of True k v e _ k]
    by simp
next
  fix k and v u :: "int list" and e
  assume "length v = 3" "length u = 3" "low k v = v" "low k u = u"
  then show "l1 (rotR3 k v e) (rotR3 k u e) = l1 v u"
    by (rule rotR3_l1)
next
  fix e :: int assume "0 \<le> e" "e < 2 ^ 3"
  then show "is_bits 3 (dec3 e)" by (rule dec3_bits)
next
  fix k show "place k (rotR3 k (replicate 3 0) 0) (dec3 0) = replicate 3 0"
    by (simp add: zeros rotR3_def rot3_def do2_def or_same_Some dec3_def place3 numeral_2_eq_2)
next
  fix k and e :: int assume "0 \<le> e" "e + 1 < 2 ^ 3"
  then show "l1 (place k (rotR3 k (gcoord 3 rotR3 dec3 k (2 ^ (3 * k) - 1)) e) (dec3 e))
      (place k (rotR3 k (replicate 3 0) (e + 1)) (dec3 (e + 1))) = 1"
    unfolding end3 zeros by (rule junction3)
qed

lemma steps4: "steps 4 rotR4 dec4"
  unfolding steps_def
proof (intro conjI allI impI)
  fix k and v :: "int list" and e assume "length v = 4"
  then show "length (rotR4 k v e) = 4"
    using rot4R_Some rot4_length by metis
next
  fix k and v :: "int list" and e assume "length v = 4" "low k v = v"
  then show "low k (rotR4 k v e) = rotR4 k v e"
    unfolding rotR4_def using rot_keeps_range [of "rot4 True" k v e] rot4_low [of True k v e _ k]
    by simp
next
  fix k and v u :: "int list" and e
  assume "length v = 4" "length u = 4" "low k v = v" "low k u = u"
  then show "l1 (rotR4 k v e) (rotR4 k u e) = l1 v u"
    by (rule rotR4_l1)
next
  fix e :: int assume "0 \<le> e" "e < 2 ^ 4"
  then show "is_bits 4 (dec4 e)" by (rule dec4_bits)
next
  fix k show "place k (rotR4 k (replicate 4 0) 0) (dec4 0) = replicate 4 0"
    by (simp add: zeros rotR4_def rot4_def do2_def or_same_Some dec4_def place4
        numeral_2_eq_2 numeral_3_eq_3)
next
  fix k and e :: int assume "0 \<le> e" "e + 1 < 2 ^ 4"
  then show "l1 (place k (rotR4 k (gcoord 4 rotR4 dec4 k (2 ^ (4 * k) - 1)) e) (dec4 e))
      (place k (rotR4 k (replicate 4 0) (e + 1)) (dec4 (e + 1))) = 1"
    unfolding end4 zeros by (rule junction4)
qed

lemma coord_loop_steps:
  assumes st: "steps N rR dec"
    and cbody: "\<And>n v pos. length v = N \<Longrightarrow>
      cbody n (v, pos) = Some (place n (rR n v (take_bit N pos)) (dec (take_bit N pos)), drop_bit N pos)"
  shows "map_option fst (for_levels (up_to k) cbody (replicate N 0, d)) = Some (gcoord N rR dec k d)"
proof -
  have "for_levels (up_to k) cbody (replicate N 0, d) = Some (gcoord N rR dec k d, drop_bit (N * k) d)"
  proof (induction k)
    case 0
    show ?case by (simp add: up_to_0)
  next
    case (Suc k)
    have "length (gcoord N rR dec k d) = N"
      using gcoord_shape [OF st] by simp
    with Suc show ?case
      by (simp add: up_to_Suc for_levels_snoc cbody Let_def add.commute del: mult_Suc_right)
         (simp add: add.commute)
  qed
  then show ?thesis by simp
qed

lemma Coord2D_gcoord: "Coord2D k d = Some (gcoord 2 rotF2 dec2 k d)"
  using coord_loop_steps [OF steps2 Coord2D_body_eq] by (simp add: Coord2D_def zeros)

lemma Coord3D_gcoord: "Coord3D k d = Some (gcoord 3 rotR3 dec3 k d)"
  using coord_loop_steps [OF steps3 Coord3D_body_eq] by (simp add: Coord3D_def zeros)

lemma Coord4D_gcoord: "Coord4D k d = Some (gcoord 4 rotR4 dec4 k d)"
  using coord_loop_steps [OF steps4 Coord4D_body_eq] by (simp add: Coord4D_def zeros)

lemma gcoord_apart:
  assumes st: "steps N rR dec" and d: "0 \<le> d" "d + 1 < 2 ^ (N * k)"
  shows "one_axis_apart (gcoord N rR dec k d) (gcoord N rR dec k (d + 1)) \<and>
    length (gcoord N rR dec k d) = N"
  using l1_one [of "gcoord N rR dec k d" "gcoord N rR dec k (d + 1)"]
    gcoord_adjacent [OF st d] gcoord_shape [OF st, of k d] gcoord_shape [OF st, of k "d + 1"]
  by (simp add: one_axis_apart_def)

text \<open>
  Claim C3.  For the dimensions 2, 3 and 4, every order \<open>k\<close> and every \<open>d\<close> with
  \<open>0 \<le> d\<close> and \<open>d + 1 < 2^(N k)\<close>: \<open>Coord\<close> returns cells for \<open>d\<close> and for \<open>d + 1\<close>, and
  the two cells differ on exactly one axis, there by exactly 1.  (Unbounded arithmetic; it
  is the arithmetic of the program while \<open>d + 1\<close> and \<open>2^k\<close> fit a machine integer.)
\<close>

theorem adjacency_law:
  assumes "0 \<le> d"
  shows "(d + 1 < 2 ^ (2 * k) \<longrightarrow> (\<exists>v u. Coord2D k d = Some v \<and> Coord2D k (d + 1) = Some u \<and>
            length v = 2 \<and> one_axis_apart v u)) \<and>
         (d + 1 < 2 ^ (3 * k) \<longrightarrow> (\<exists>v u. Coord3D k d = Some v \<and> Coord3D k (d + 1) = Some u \<and>
            length v = 3 \<and> one_axis_apart v u)) \<and>
         (d + 1 < 2 ^ (4 * k) \<longrightarrow> (\<exists>v u. Coord4D k d = Some v \<and> Coord4D k (d + 1) = Some u \<and>
            length v = 4 \<and> one_axis_apart v u))"
  using gcoord_apart [OF steps2 assms, of k] gcoord_apart [OF steps3 assms, of k]
    gcoord_apart [OF steps4 assms, of k]
  by (simp add: Coord2D_gcoord Coord3D_gcoord Coord4D_gcoord)

theorem adjacency_law_witness:
  "Coord2D 2 7 = Some [2, 1] \<and> Coord2D 2 8 = Some [2, 2] \<and> one_axis_apart [2, 1] [2, 2] \<and>
   Coord3D 2 7 = Some [1, 0, 0] \<and> Coord3D 2 8 = Some [2, 0, 0] \<and>
   one_axis_apart [1, 0, 0] [2, 0, 0] \<and>
   Coord4D 2 15 = Some [1, 0, 0, 0] \<and> Coord4D 2 16 = Some [2, 0, 0, 0] \<and>
   one_axis_apart [1, 0, 0, 0] [2, 0, 0, 0]"
proof -
  have c2: "Coord2D 2 7 = Some [2, 1]" "Coord2D 2 8 = Some [2, 2]"
    by code_simp+
  have c3: "Coord3D 2 7 = Some [1, 0, 0]" "Coord3D 2 8 = Some [2, 0, 0]"
    by code_simp+
  have c4: "Coord4D 2 15 = Some [1, 0, 0, 0]" "Coord4D 2 16 = Some [2, 0, 0, 0]"
    by code_simp+
  show ?thesis
    using adjacency_law [of 7 2] adjacency_law [of 15 2]
    by (simp add: c2 c3 c4)
qed

section \<open>The tree on concrete inputs\<close>

text \<open>
  Claim C2, at a failing input.  The claim: after any sequence of inserts the bounds of
  every node are the tight extent of its contents, and \<open>Branch.insert\<close> rebounds when it
  appends a split sibling without overflowing.  The program: inserting the seven squares
  into a new tree succeeds; the seventh insert splits the second leaf, the root appends
  the sibling and returns without \<open>rebound\<close>.  The root keeps the bounds
  \<open>(0, 0)\<close> to \<open>(8, 8)\<close> while the tight extent of its children is \<open>(0, 0)\<close> to \<open>(10, 8)\<close>.
\<close>

theorem root_bounds_stale:
  "insert_all conv new_Tree seven_squares = Inr seven_tree \<and>
   Root seven_tree = Some seven_root \<and>
   Node_Bounds seven_root = Bounding (Some [0, 0]) (Some [8, 8]) \<and>
   calculateBounds (map Node_Bounds seven_leaves) = Inr (Bounding (Some [0, 0]) (Some [10, 8])) \<and>
   tight seven_root = False"
proof -
  have "insert_all conv new_Tree seven_squares = Inr seven_tree"
    by code_simp
  moreover have "calculateBounds (map Node_Bounds seven_leaves) =
      Inr (Bounding (Some [0, 0]) (Some [10, 8]))"
    by code_simp
  moreover have "tight seven_root = False"
    by code_simp
  ultimately show ?thesis
    by (simp add: seven_tree_def seven_root_def)
qed

text \<open>
  Claim C4, at a failing input.  The claim: a search with an \<open>OverlapKeeper\<close> for a region
  collects exactly the inserted items whose bounds overlap the region.  The program, on
  the tree of the seven squares and the region of the seventh square: the root's stale
  bounds do not overlap the region, the search prunes the whole tree and keeps nothing,
  while the seventh square is in the tree and overlaps the region.
\<close>

theorem search_misses_item:
  "insert_all conv new_Tree seven_squares = Inr seven_tree \<and>
   Tree_Search seven_tree (NewOverlap seventh) = Inr \<lparr>query = seventh, Items = []\<rparr> \<and>
   seven_squares ! 6 = box 7 [9, 7] [10, 8] \<and>
   Overlaps seventh (Bounds (box 7 [9, 7] [10, 8])) = Inr True \<and>
   Tree_Len seven_tree = Inr 7"
proof -
  have "insert_all conv new_Tree seven_squares = Inr seven_tree"
    by code_simp
  moreover have "Tree_Search seven_tree (NewOverlap seventh) = Inr \<lparr>query = seventh, Items = []\<rparr>"
    by code_simp
  moreover have "seven_squares ! 6 = box 7 [9, 7] [10, 8]"
    by code_simp
  moreover have "Overlaps seventh (Bounds (box 7 [9, 7] [10, 8])) = Inr True"
    by code_simp
  moreover have "Tree_Len seven_tree = Inr 7"
    by code_simp
  ultimately show ?thesis
    by simp
qed

text \<open>
  Claim C5, at a failing input.  The claim: with a nil pivot, an insert of an item whose
  dimension is not 2, 3 or 4 fails with a configuration error at that insert.  The
  program: the guard \<open>2 <= n || n <= 4\<close> holds for every \<open>n\<close>, so the insert of a box of
  dimension 5 into a new tree installs the default pivot and succeeds, and so do the next
  three; the fifth insert overflows the leaf, and the pivot panics there.
\<close>

theorem insert_without_pivot:
  "Tree_Insert conv new_Tree (box 1 [1, 0, 0, 0, 0] [2, 1, 1, 1, 1]) =
     Inr \<lparr>FillLevel = 2, Pivot = Some (HilbertCurvePivot_closure 5),
          Root = Some (Leaf (Bounding (Some [1, 0, 0, 0, 0]) (Some [2, 1, 1, 1, 1]))
                         [box 1 [1, 0, 0, 0, 0] [2, 1, 1, 1, 1]])\<rparr> \<and>
   isl (insert_all conv new_Tree (take 4 five_of_dimension_5)) = False \<and>
   insert_all conv new_Tree five_of_dimension_5 = Inl (NoCurve 5)"
proof -
  have "Tree_Insert conv new_Tree (box 1 [1, 0, 0, 0, 0] [2, 1, 1, 1, 1]) =
     Inr \<lparr>FillLevel = 2, Pivot = Some (HilbertCurvePivot_closure 5),
          Root = Some (Leaf (Bounding (Some [1, 0, 0, 0, 0]) (Some [2, 1, 1, 1, 1]))
                         [box 1 [1, 0, 0, 0, 0] [2, 1, 1, 1, 1]])\<rparr>"
    by code_simp
  moreover have "isl (insert_all conv new_Tree (take 4 five_of_dimension_5)) = False"
    by code_simp
  moreover have "insert_all conv new_Tree five_of_dimension_5 = Inl (NoCurve 5)"
    by code_simp
  ultimately show ?thesis
    by simp
qed

text \<open>
  Claim C6, at a failing input.  The claim: the pivot of \<open>HilbertCurvePivot(k)\<close> uses the
  grid and the curve of order \<open>k\<close>, for every \<open>k\<close>.  The program uses the constant 5
  whatever the argument: for \<open>HilbertCurvePivot(1)\<close> on the three squares the positions
  are those of the curve of order 5, far outside \<open>[0, 4)\<close>, and the pivot swaps the first
  two squares, which have the same position on the curve of order 1.
\<close>

theorem pivot_order_ignored:
  "hilbert_points conv 1 (map Bounds three_squares) = Inr [128, 32, 672] \<and>
   hilbert_points_spec conv 1 (map Bounds three_squares) = Inr [0, 0, 2] \<and>
   hilbert_points_spec conv 5 (map Bounds three_squares) = Inr [128, 32, 672] \<and>
   HilbertCurvePivot conv 1 Bounds three_squares =
     Inr ([three_squares ! 1, three_squares ! 0, three_squares ! 2], 1)"
proof -
  have "hilbert_points conv 1 (map Bounds three_squares) = Inr [128, 32, 672]"
    by code_simp
  moreover have "hilbert_points_spec conv 1 (map Bounds three_squares) = Inr [0, 0, 2]"
    by code_simp
  moreover have "hilbert_points_spec conv 5 (map Bounds three_squares) = Inr [128, 32, 672]"
    by code_simp
  moreover have "HilbertCurvePivot conv 1 Bounds three_squares =
     Inr ([three_squares ! 1, three_squares ! 0, three_squares ! 2], 1)"
    by code_simp
  ultimately show ?thesis
    by simp
qed

text \<open>
  Claim C9, at a failing input.  The claim: \<open>Len\<close> returns the number of inserts, also for
  a tree with no insert.  The program: \<open>Len\<close> calls \<open>len\<close> on the nil root of a new tree
  and panics, where \<open>Search\<close> tests for the nil root and returns.
\<close>

theorem len_of_new_tree:
  "Tree_Len new_Tree = Inl NilPointer \<and>
   Tree_Search new_Tree (NewOverlap seventh) = Inr (NewOverlap seventh)"
  by (simp add: Tree_Len_def Tree_Search_def new_Tree_def)

text \<open>
  Claim C8, at a failing input.  The claim: on an axis where the tight bounds of the set
  are degenerate, the grid coordinate of every item is 0.  The program has no test for
  such an axis: for the two segments \<open>quantize\<close> divides zero by zero and converts the NaN
  with \<open>int\<close>, so the coordinate is whatever the implementation makes of a NaN: the
  least \<open>int\<close> on amd64, and 0 only where the implementation gives 0, as on arm64.
\<close>

theorem degenerate_axis_coordinate:
  "calculateBounds (map Bounds two_segments) = Inr (Bounding (Some [0, 0]) (Some [4, 0])) \<and>
   center_of (Bounds (two_segments ! 0)) = Inr [1 / 2, 0] \<and>
   quantize conv (Bounding (Some [0, 0]) (Some [4, 0])) 32 [1 / 2, 0] =
     Inr [4, if conv NaN = 32 then 31 else conv NaN] \<and>
   quantize amd64 (Bounding (Some [0, 0]) (Some [4, 0])) 32 [1 / 2, 0] =
     Inr [4, - 9223372036854775808] \<and>
   quantize arm64 (Bounding (Some [0, 0]) (Some [4, 0])) 32 [1 / 2, 0] = Inr [4, 0] \<and>
   HilbertCurvePivot amd64 5 Bounds two_segments = Inr (two_segments, 1)"
proof -
  have "calculateBounds (map Bounds two_segments) = Inr (Bounding (Some [0, 0]) (Some [4, 0]))"
    by code_simp
  moreover have "center_of (Bounds (two_segments ! 0)) = Inr [1 / 2, 0]"
    by code_simp
  moreover have "quantize conv (Bounding (Some [0, 0]) (Some [4, 0])) 32 [1 / 2, 0] =
      Inr [4, if conv NaN = 32 then 31 else conv NaN]"
    by (simp add: quantize_def Dim_def after_def to_int_def float_div_def Let_def)
  moreover have "quantize amd64 (Bounding (Some [0, 0]) (Some [4, 0])) 32 [1 / 2, 0] =
      Inr [4, - 9223372036854775808]"
    by code_simp
  moreover have "quantize arm64 (Bounding (Some [0, 0]) (Some [4, 0])) 32 [1 / 2, 0] = Inr [4, 0]"
    by code_simp
  moreover have "HilbertCurvePivot amd64 5 Bounds two_segments = Inr (two_segments, 1)"
    by code_simp
  ultimately show ?thesis
    by simp
qed

end
